theory Spec2Isabelle
  imports Main "HOL-Library.Monad_Syntax" "HOL-Library.Multiset"
begin

section \<open>The store: nodes and list objects\<close>

text \<open>
  The container of \<^verbatim>\<open>src/list.hpp\<close> is a circular doubly linked chain of heap nodes
  closed by a sentinel node. Node pointers are optional addresses (\<open>None\<close> is
  \<^verbatim>\<open>nullptr\<close>); the node heap is a partial map from addresses to nodes, so that reading
  or writing through a null or dangling pointer has no result (\<open>None\<close>). List objects
  live at their own addresses, which is what \<^verbatim>\<open>this == &other\<close> and the owner field of
  an iterator compare. The field \<^verbatim>\<open>next\<close> is written \<open>nxt\<close>.
\<close>

type_synonym addr = nat
type_synonym lid = nat

datatype error = invalid_iterator | container_is_empty

record 'a node =
  prev :: "addr option"
  nxt :: "addr option"
  val :: "'a option"

record list_obj =
  head :: "addr option"
  sz :: nat

record 'a state =
  nodes :: "addr \<Rightarrow> 'a node option"
  list_objs :: "lid \<Rightarrow> list_obj"
  brk :: addr

record iterator =
  owner :: "lid option"
  ptr :: "addr option"

type_synonym const_iterator = iterator

subsection \<open>Reading and writing through node pointers\<close>

definition get_node :: "'a state \<Rightarrow> addr option \<Rightarrow> 'a node option" where
  "get_node s p = (case p of None \<Rightarrow> None | Some a \<Rightarrow> nodes s a)"

definition get_prev :: "'a state \<Rightarrow> addr option \<Rightarrow> addr option option" where
  "get_prev s p = map_option prev (get_node s p)"

definition get_next :: "'a state \<Rightarrow> addr option \<Rightarrow> addr option option" where
  "get_next s p = map_option nxt (get_node s p)"

definition get_val :: "'a state \<Rightarrow> addr option \<Rightarrow> 'a option option" where
  "get_val s p = map_option val (get_node s p)"

definition deref_val :: "'a state \<Rightarrow> addr option \<Rightarrow> 'a option" where
  "deref_val s p = do { v \<leftarrow> get_val s p; v }"

definition set_prev :: "addr option \<Rightarrow> addr option \<Rightarrow> 'a state \<Rightarrow> 'a state option" where
  "set_prev p q s =
     (case p of None \<Rightarrow> None
      | Some a \<Rightarrow> (case nodes s a of None \<Rightarrow> None
          | Some n \<Rightarrow> Some (s\<lparr>nodes := (nodes s)(a \<mapsto> n\<lparr>prev := q\<rparr>)\<rparr>)))"

definition set_next :: "addr option \<Rightarrow> addr option \<Rightarrow> 'a state \<Rightarrow> 'a state option" where
  "set_next p q s =
     (case p of None \<Rightarrow> None
      | Some a \<Rightarrow> (case nodes s a of None \<Rightarrow> None
          | Some n \<Rightarrow> Some (s\<lparr>nodes := (nodes s)(a \<mapsto> n\<lparr>nxt := q\<rparr>)\<rparr>)))"

text \<open>
  \<^verbatim>\<open>new node(...)\<close> returns an address that holds no node; the store hands out \<open>brk\<close>
  and moves it up. \<^verbatim>\<open>delete p\<close> frees the node (and its value); deleting a null pointer
  does nothing, deleting a pointer to no node has no result.
\<close>

definition new_node :: "'a option \<Rightarrow> 'a state \<Rightarrow> addr \<times> 'a state" where
  "new_node v s =
     (brk s, s\<lparr>nodes := (nodes s)(brk s \<mapsto> \<lparr>prev = None, nxt = None, val = v\<rparr>),
               brk := Suc (brk s)\<rparr>)"

definition delete_node :: "addr option \<Rightarrow> 'a state \<Rightarrow> 'a state option" where
  "delete_node p s =
     (case p of None \<Rightarrow> Some s
      | Some a \<Rightarrow> (case nodes s a of None \<Rightarrow> None
          | Some n \<Rightarrow> Some (s\<lparr>nodes := (nodes s)(a := None)\<rparr>)))"

definition get_head :: "'a state \<Rightarrow> lid \<Rightarrow> addr option" where
  "get_head s this = head (list_objs s this)"

definition get_sz :: "'a state \<Rightarrow> lid \<Rightarrow> nat" where
  "get_sz s this = sz (list_objs s this)"

definition set_head :: "lid \<Rightarrow> addr option \<Rightarrow> 'a state \<Rightarrow> 'a state" where
  "set_head this h s = s\<lparr>list_objs := (list_objs s)(this := (list_objs s this)\<lparr>head := h\<rparr>)\<rparr>"

definition set_sz :: "lid \<Rightarrow> nat \<Rightarrow> 'a state \<Rightarrow> 'a state" where
  "set_sz this n s = s\<lparr>list_objs := (list_objs s)(this := (list_objs s this)\<lparr>sz := n\<rparr>)\<rparr>"

section \<open>Link operations\<close>

text \<open>
  \<^verbatim>\<open>node *insert(node *pos, node *cur)\<close> and \<^verbatim>\<open>node *erase(node *pos)\<close>. The counter
  is a \<^verbatim>\<open>size_t\<close>: \<^verbatim>\<open>--sz\<close> at zero wraps to \<open>2^64 - 1\<close>; \<^verbatim>\<open>++sz\<close> cannot wrap, since
  every counted node occupies its own address.
\<close>

definition insert_node :: "lid \<Rightarrow> addr option \<Rightarrow> addr option \<Rightarrow> 'a state \<Rightarrow> (addr option \<times> 'a state) option" where
  "insert_node this pos cur s = do {
     pp \<leftarrow> get_prev s pos;
     s \<leftarrow> set_prev cur pp s;
     s \<leftarrow> set_next cur pos s;
     pp \<leftarrow> get_prev s pos;
     s \<leftarrow> set_next pp cur s;
     s \<leftarrow> set_prev pos cur s;
     Some (cur, set_sz this (get_sz s this + 1) s)
   }"

definition erase_node :: "lid \<Rightarrow> addr option \<Rightarrow> 'a state \<Rightarrow> (addr option \<times> 'a state) option" where
  "erase_node this pos s = do {
     pp \<leftarrow> get_prev s pos;
     pn \<leftarrow> get_next s pos;
     s \<leftarrow> set_next pp pn s;
     pn \<leftarrow> get_next s pos;
     pp \<leftarrow> get_prev s pos;
     s \<leftarrow> set_prev pn pp s;
     s \<leftarrow> set_next pos None s;
     s \<leftarrow> set_prev pos None s;
     Some (pos, set_sz this (if get_sz s this = 0 then 2 ^ 64 - 1 else get_sz s this - 1) s)
   }"

section \<open>Iterators\<close>

text \<open>
  An iterator is the pair of its owner (a pointer to the list object) and a node
  pointer. A step changes the iterator object itself: each operation returns what the
  C++ operator returns (or the error it throws) together with the iterator object
  afterwards. The operators only read the store. \<^verbatim>\<open>const_iterator\<close> has the same
  fields and the same operator bodies.
\<close>

definition iterator_post_inc :: "'a state \<Rightarrow> iterator \<Rightarrow> ((error + iterator) \<times> iterator) option" where
  "iterator_post_inc s it =
     (case owner it of None \<Rightarrow> Some (Inl invalid_iterator, it)
      | Some ow \<Rightarrow>
          if ptr it = None \<or> ptr it = get_head s ow then Some (Inl invalid_iterator, it)
          else do {
            let tmp = it;
            n \<leftarrow> get_next s (ptr it);
            Some (Inr tmp, it\<lparr>ptr := n\<rparr>)
          })"

definition iterator_pre_inc :: "'a state \<Rightarrow> iterator \<Rightarrow> ((error + iterator) \<times> iterator) option" where
  "iterator_pre_inc s it =
     (case owner it of None \<Rightarrow> Some (Inl invalid_iterator, it)
      | Some ow \<Rightarrow>
          if ptr it = None \<or> ptr it = get_head s ow then Some (Inl invalid_iterator, it)
          else do {
            n \<leftarrow> get_next s (ptr it);
            Some (Inr (it\<lparr>ptr := n\<rparr>), it\<lparr>ptr := n\<rparr>)
          })"

definition iterator_post_dec :: "'a state \<Rightarrow> iterator \<Rightarrow> ((error + iterator) \<times> iterator) option" where
  "iterator_post_dec s it =
     (case owner it of None \<Rightarrow> Some (Inl invalid_iterator, it)
      | Some ow \<Rightarrow>
          if ptr it = None then Some (Inl invalid_iterator, it)
          else if get_sz s ow = 0 then Some (Inl invalid_iterator, it)
          else do {
            p \<leftarrow> get_prev s (ptr it);
            if p = get_head s ow then Some (Inl invalid_iterator, it)
            else do {
              let tmp = it;
              p \<leftarrow> get_prev s (ptr it);
              Some (Inr tmp, it\<lparr>ptr := p\<rparr>)
            }
          })"

definition iterator_pre_dec :: "'a state \<Rightarrow> iterator \<Rightarrow> ((error + iterator) \<times> iterator) option" where
  "iterator_pre_dec s it =
     (case owner it of None \<Rightarrow> Some (Inl invalid_iterator, it)
      | Some ow \<Rightarrow>
          if ptr it = None then Some (Inl invalid_iterator, it)
          else if get_sz s ow = 0 then Some (Inl invalid_iterator, it)
          else do {
            p \<leftarrow> get_prev s (ptr it);
            if p = get_head s ow then Some (Inl invalid_iterator, it)
            else do {
              p \<leftarrow> get_prev s (ptr it);
              Some (Inr (it\<lparr>ptr := p\<rparr>), it\<lparr>ptr := p\<rparr>)
            }
          })"

text \<open>\<^verbatim>\<open>operator*\<close> yields the stored value, \<^verbatim>\<open>operator->\<close> the value pointer.\<close>

definition iterator_deref :: "'a state \<Rightarrow> iterator \<Rightarrow> ((error + 'a) \<times> iterator) option" where
  "iterator_deref s it =
     (case owner it of None \<Rightarrow> Some (Inl invalid_iterator, it)
      | Some ow \<Rightarrow>
          if ptr it = None \<or> ptr it = get_head s ow then Some (Inl invalid_iterator, it)
          else do {
            v \<leftarrow> deref_val s (ptr it);
            Some (Inr v, it)
          })"

definition iterator_arrow :: "'a state \<Rightarrow> iterator \<Rightarrow> ((error + 'a option) \<times> iterator) option" where
  "iterator_arrow s it =
     (case owner it of None \<Rightarrow> Some (Inl invalid_iterator, it)
      | Some ow \<Rightarrow>
          if ptr it = None \<or> ptr it = get_head s ow then Some (Inl invalid_iterator, it)
          else do {
            v \<leftarrow> get_val s (ptr it);
            Some (Inr v, it)
          })"


definition const_iterator_post_inc :: "'a state \<Rightarrow> const_iterator \<Rightarrow> ((error + const_iterator) \<times> const_iterator) option" where
  "const_iterator_post_inc s it =
     (case owner it of None \<Rightarrow> Some (Inl invalid_iterator, it)
      | Some ow \<Rightarrow>
          if ptr it = None \<or> ptr it = get_head s ow then Some (Inl invalid_iterator, it)
          else do {
            let tmp = it;
            n \<leftarrow> get_next s (ptr it);
            Some (Inr tmp, it\<lparr>ptr := n\<rparr>)
          })"

definition const_iterator_pre_inc :: "'a state \<Rightarrow> const_iterator \<Rightarrow> ((error + const_iterator) \<times> const_iterator) option" where
  "const_iterator_pre_inc s it =
     (case owner it of None \<Rightarrow> Some (Inl invalid_iterator, it)
      | Some ow \<Rightarrow>
          if ptr it = None \<or> ptr it = get_head s ow then Some (Inl invalid_iterator, it)
          else do {
            n \<leftarrow> get_next s (ptr it);
            Some (Inr (it\<lparr>ptr := n\<rparr>), it\<lparr>ptr := n\<rparr>)
          })"

definition const_iterator_post_dec :: "'a state \<Rightarrow> const_iterator \<Rightarrow> ((error + const_iterator) \<times> const_iterator) option" where
  "const_iterator_post_dec s it =
     (case owner it of None \<Rightarrow> Some (Inl invalid_iterator, it)
      | Some ow \<Rightarrow>
          if ptr it = None then Some (Inl invalid_iterator, it)
          else if get_sz s ow = 0 then Some (Inl invalid_iterator, it)
          else do {
            p \<leftarrow> get_prev s (ptr it);
            if p = get_head s ow then Some (Inl invalid_iterator, it)
            else do {
              let tmp = it;
              p \<leftarrow> get_prev s (ptr it);
              Some (Inr tmp, it\<lparr>ptr := p\<rparr>)
            }
          })"

definition const_iterator_pre_dec :: "'a state \<Rightarrow> const_iterator \<Rightarrow> ((error + const_iterator) \<times> const_iterator) option" where
  "const_iterator_pre_dec s it =
     (case owner it of None \<Rightarrow> Some (Inl invalid_iterator, it)
      | Some ow \<Rightarrow>
          if ptr it = None then Some (Inl invalid_iterator, it)
          else if get_sz s ow = 0 then Some (Inl invalid_iterator, it)
          else do {
            p \<leftarrow> get_prev s (ptr it);
            if p = get_head s ow then Some (Inl invalid_iterator, it)
            else do {
              p \<leftarrow> get_prev s (ptr it);
              Some (Inr (it\<lparr>ptr := p\<rparr>), it\<lparr>ptr := p\<rparr>)
            }
          })"

definition const_iterator_deref :: "'a state \<Rightarrow> const_iterator \<Rightarrow> ((error + 'a) \<times> const_iterator) option" where
  "const_iterator_deref s it =
     (case owner it of None \<Rightarrow> Some (Inl invalid_iterator, it)
      | Some ow \<Rightarrow>
          if ptr it = None \<or> ptr it = get_head s ow then Some (Inl invalid_iterator, it)
          else do {
            v \<leftarrow> deref_val s (ptr it);
            Some (Inr v, it)
          })"

definition const_iterator_arrow :: "'a state \<Rightarrow> const_iterator \<Rightarrow> ((error + 'a option) \<times> const_iterator) option" where
  "const_iterator_arrow s it =
     (case owner it of None \<Rightarrow> Some (Inl invalid_iterator, it)
      | Some ow \<Rightarrow>
          if ptr it = None \<or> ptr it = get_head s ow then Some (Inl invalid_iterator, it)
          else do {
            v \<leftarrow> get_val s (ptr it);
            Some (Inr v, it)
          })"

section \<open>Container operations\<close>

text \<open>
  Every member function takes the address \<open>this\<close> of its list object and the store. A
  function that can throw returns the error or its value together with the store at
  that moment; \<open>None\<close> stands for a run with no result (a read through a null or dangling
  pointer, or a loop that does not end).
\<close>

definition list_begin :: "lid \<Rightarrow> 'a state \<Rightarrow> iterator option" where
  "list_begin this s = do {
     n \<leftarrow> get_next s (get_head s this);
     Some \<lparr>owner = Some this, ptr = n\<rparr>
   }"


definition list_end :: "lid \<Rightarrow> 'a state \<Rightarrow> iterator" where
  "list_end this s = \<lparr>owner = Some this, ptr = get_head s this\<rparr>"

definition list_cend :: "lid \<Rightarrow> 'a state \<Rightarrow> const_iterator" where
  "list_cend this s = \<lparr>owner = Some this, ptr = get_head s this\<rparr>"

definition list_empty :: "lid \<Rightarrow> 'a state \<Rightarrow> bool" where
  "list_empty this s \<longleftrightarrow> get_sz s this = 0"

definition list_size :: "lid \<Rightarrow> 'a state \<Rightarrow> nat" where
  "list_size this s = get_sz s this"

definition list_front :: "lid \<Rightarrow> 'a state \<Rightarrow> ((error + 'a) \<times> 'a state) option" where
  "list_front this s =
     (if get_sz s this = 0 then Some (Inl container_is_empty, s)
      else do {
        n \<leftarrow> get_next s (get_head s this);
        v \<leftarrow> deref_val s n;
        Some (Inr v, s)
      })"

definition list_back :: "lid \<Rightarrow> 'a state \<Rightarrow> ((error + 'a) \<times> 'a state) option" where
  "list_back this s =
     (if get_sz s this = 0 then Some (Inl container_is_empty, s)
      else do {
        p \<leftarrow> get_prev s (get_head s this);
        v \<leftarrow> deref_val s p;
        Some (Inr v, s)
      })"

definition list_insert :: "lid \<Rightarrow> iterator \<Rightarrow> 'a \<Rightarrow> 'a state \<Rightarrow> ((error + iterator) \<times> 'a state) option" where
  "list_insert this pos v s =
     (if owner pos \<noteq> Some this \<or> ptr pos = None then Some (Inl invalid_iterator, s)
      else do {
        let (cur, s) = new_node (Some v) s;
        (_, s) \<leftarrow> insert_node this (ptr pos) (Some cur) s;
        Some (Inr \<lparr>owner = Some this, ptr = Some cur\<rparr>, s)
      })"

definition list_erase :: "lid \<Rightarrow> iterator \<Rightarrow> 'a state \<Rightarrow> ((error + iterator) \<times> 'a state) option" where
  "list_erase this pos s =
     (if get_sz s this = 0 then Some (Inl container_is_empty, s)
      else if owner pos \<noteq> Some this \<or> ptr pos = None \<or> ptr pos = get_head s this
      then Some (Inl invalid_iterator, s)
      else do {
        n \<leftarrow> get_next s (ptr pos);
        (rm, s) \<leftarrow> erase_node this (ptr pos) s;
        s \<leftarrow> delete_node rm s;
        Some (Inr \<lparr>owner = Some this, ptr = n\<rparr>, s)
      })"


definition list_pop_back :: "lid \<Rightarrow> 'a state \<Rightarrow> ((error + unit) \<times> 'a state) option" where
  "list_pop_back this s =
     (if get_sz s this = 0 then Some (Inl container_is_empty, s)
      else do {
        p \<leftarrow> get_prev s (get_head s this);
        case list_erase this \<lparr>owner = Some this, ptr = p\<rparr> s of
          None \<Rightarrow> None
        | Some (Inl e, s) \<Rightarrow> Some (Inl e, s)
        | Some (Inr _, s) \<Rightarrow> Some (Inr (), s)
      })"


definition list_pop_front :: "lid \<Rightarrow> 'a state \<Rightarrow> ((error + unit) \<times> 'a state) option" where
  "list_pop_front this s =
     (if get_sz s this = 0 then Some (Inl container_is_empty, s)
      else do {
        n \<leftarrow> get_next s (get_head s this);
        case list_erase this \<lparr>owner = Some this, ptr = n\<rparr> s of
          None \<Rightarrow> None
        | Some (Inl e, s) \<Rightarrow> Some (Inl e, s)
        | Some (Inr _, s) \<Rightarrow> Some (Inr (), s)
      })"







section \<open>Bulk algorithms\<close>

subsection \<open>reverse\<close>

text \<open>
  \<^verbatim>\<open>do { tmp = cur->next; cur->next = cur->prev; cur->prev = tmp; cur = tmp; } while (cur != head);\<close>
\<close>

partial_function (option) reverse_loop :: "lid \<Rightarrow> addr option \<Rightarrow> 'a state \<Rightarrow> 'a state option" where
  "reverse_loop this cur s = do {
     tmp \<leftarrow> get_next s cur;
     p \<leftarrow> get_prev s cur;
     s \<leftarrow> set_next cur p s;
     s \<leftarrow> set_prev cur tmp s;
     if tmp \<noteq> get_head s this then reverse_loop this tmp s else Some s
   }"

definition list_reverse :: "lid \<Rightarrow> 'a state \<Rightarrow> 'a state option" where
  "list_reverse this s =
     (if get_sz s this \<le> 1 then Some s else reverse_loop this (get_head s this) s)"

subsection \<open>unique\<close>

text \<open>The element type's \<^verbatim>\<open>operator==\<close> is the parameter \<open>eq\<close>.\<close>

partial_function (option) unique_loop :: "('a \<Rightarrow> 'a \<Rightarrow> bool) \<Rightarrow> lid \<Rightarrow> addr option \<Rightarrow> 'a state \<Rightarrow> 'a state option" where
  "unique_loop eq this cur s =
     (if cur \<noteq> get_head s this then do {
        n \<leftarrow> get_next s cur;
        if n \<noteq> get_head s this then do {
          x \<leftarrow> deref_val s cur;
          n \<leftarrow> get_next s cur;
          y \<leftarrow> deref_val s n;
          if eq x y then do {
            dup \<leftarrow> get_next s cur;
            (_, s) \<leftarrow> erase_node this dup s;
            s \<leftarrow> delete_node dup s;
            unique_loop eq this cur s
          } else do {
            n \<leftarrow> get_next s cur;
            unique_loop eq this n s
          }
        } else Some s
      } else Some s)"

definition list_unique :: "('a \<Rightarrow> 'a \<Rightarrow> bool) \<Rightarrow> lid \<Rightarrow> 'a state \<Rightarrow> 'a state option" where
  "list_unique eq this s =
     (if get_sz s this \<le> 1 then Some s
      else do {
        cur \<leftarrow> get_next s (get_head s this);
        unique_loop eq this cur s
      })"

subsection \<open>merge\<close>

text \<open>
  The element type's \<^verbatim>\<open>operator<\<close> is the parameter \<open>lt\<close>. The main loop takes the
  argument's node when its value is less than the receiver's, else the receiver's; the
  two loops after it append what is left of either chain.
\<close>

partial_function (option) merge_loop ::
  "('a \<Rightarrow> 'a \<Rightarrow> bool) \<Rightarrow> lid \<Rightarrow> lid \<Rightarrow> addr option \<Rightarrow> addr option \<Rightarrow> addr option \<Rightarrow> 'a state
   \<Rightarrow> (addr option \<times> addr option \<times> addr option \<times> 'a state) option" where
  "merge_loop lt this other a b tail s =
     (if a \<noteq> None \<and> b \<noteq> None \<and> a \<noteq> get_head s this \<and> b \<noteq> get_head s other then do {
        vb \<leftarrow> deref_val s b;
        va \<leftarrow> deref_val s a;
        if lt vb va then do {
          nb \<leftarrow> get_next s b;
          s \<leftarrow> set_prev b tail s;
          s \<leftarrow> set_next tail b s;
          merge_loop lt this other a nb b s
        } else do {
          na \<leftarrow> get_next s a;
          s \<leftarrow> set_prev a tail s;
          s \<leftarrow> set_next tail a s;
          merge_loop lt this other na b a s
        }
      } else Some (a, b, tail, s))"

text \<open>
  \<^verbatim>\<open>while (a != head) { node *na = a->next; a->prev = tail; tail->next = a; tail = a; a = na; }\<close>
  and the same loop over \<^verbatim>\<open>b\<close> up to \<^verbatim>\<open>other.head\<close>: \<open>lst\<close> is the list whose sentinel
  ends the loop.
\<close>

partial_function (option) merge_rest ::
  "lid \<Rightarrow> addr option \<Rightarrow> addr option \<Rightarrow> 'a state \<Rightarrow> (addr option \<times> 'a state) option" where
  "merge_rest lst a tail s =
     (if a \<noteq> get_head s lst then do {
        na \<leftarrow> get_next s a;
        s \<leftarrow> set_prev a tail s;
        s \<leftarrow> set_next tail a s;
        merge_rest lst na a s
      } else Some (tail, s))"

definition list_merge :: "('a \<Rightarrow> 'a \<Rightarrow> bool) \<Rightarrow> lid \<Rightarrow> lid \<Rightarrow> 'a state \<Rightarrow> 'a state option" where
  "list_merge lt this other s =
     (if this = other \<or> get_sz s other = 0 then Some s
      else do {
        a \<leftarrow> get_next s (get_head s this);
        b \<leftarrow> get_next s (get_head s other);
        s \<leftarrow> set_prev (get_head s this) (get_head s this) s;
        s \<leftarrow> set_next (get_head s this) (get_head s this) s;
        let new_sz = get_sz s this + get_sz s other;
        (a, b, tail, s) \<leftarrow> merge_loop lt this other a b (get_head s this) s;
        (tail, s) \<leftarrow> merge_rest this a tail s;
        (tail, s) \<leftarrow> merge_rest other b tail s;
        s \<leftarrow> set_next tail (get_head s this) s;
        s \<leftarrow> set_prev (get_head s this) tail s;
        s \<leftarrow> set_prev (get_head s other) (get_head s other) s;
        s \<leftarrow> set_next (get_head s other) (get_head s other) s;
        Some (set_sz this new_sz (set_sz other 0 s))
      })"

subsection \<open>sort\<close>

text \<open>
  The buffers \<^verbatim>\<open>a\<close>, \<^verbatim>\<open>L\<close> and \<^verbatim>\<open>R\<close> are lists of the allocated length; a read or a
  write outside \<open>0 \<le> i < length\<close> has no result. The indices \<^verbatim>\<open>l, r, i, j, top\<close> are
  32-bit \<^verbatim>\<open>int\<close>s: \<open>int_ok\<close> gives the result of an \<^verbatim>\<open>int\<close> operation, which has none
  when it leaves the range (signed overflow), and \<open>to_int\<close> is the conversion
  \<^verbatim>\<open>(int)sz\<close>, which wraps. \<^verbatim>\<open>(l + r) >> 1\<close> is the division by two, rounding down. The
  cells of a fresh buffer are indeterminate in C++ and are written before they are
  read; here a fresh node buffer holds null pointers and a fresh \<^verbatim>\<open>int\<close> buffer
  zeros. The stack index \<^verbatim>\<open>top\<close> is written \<open>tp\<close>.
\<close>

definition rd :: "'b list \<Rightarrow> int \<Rightarrow> 'b option" where
  "rd xs i = (if 0 \<le> i \<and> i < int (length xs) then Some (xs ! nat i) else None)"

definition wr :: "'b list \<Rightarrow> int \<Rightarrow> 'b \<Rightarrow> 'b list option" where
  "wr xs i v = (if 0 \<le> i \<and> i < int (length xs) then Some (xs[nat i := v]) else None)"

definition int_ok :: "int \<Rightarrow> int option" where
  "int_ok x = (if - (2 ^ 31) \<le> x \<and> x < 2 ^ 31 then Some x else None)"

definition to_int :: "nat \<Rightarrow> int" where
  "to_int n = (int n + 2 ^ 31) mod 2 ^ 32 - 2 ^ 31"

text \<open>
  The quicksort works on the buffer alone; \<open>cmp x y\<close> is the comparison
  \<^verbatim>\<open>*(x->val) < *(y->val)\<close> of two buffer entries, with no result when a pointer is
  invalid.
\<close>

partial_function (option) scan_up :: "('b \<Rightarrow> 'b \<Rightarrow> bool option) \<Rightarrow> 'b list \<Rightarrow> 'b \<Rightarrow> int \<Rightarrow> int option" where
  "scan_up cmp a pivot i = do {
     x \<leftarrow> rd a i;
     c \<leftarrow> cmp x pivot;
     if c then do {
       i \<leftarrow> int_ok (i + 1);
       scan_up cmp a pivot i
     } else Some i
   }"

partial_function (option) scan_down :: "('b \<Rightarrow> 'b \<Rightarrow> bool option) \<Rightarrow> 'b list \<Rightarrow> 'b \<Rightarrow> int \<Rightarrow> int option" where
  "scan_down cmp a pivot j = do {
     x \<leftarrow> rd a j;
     c \<leftarrow> cmp pivot x;
     if c then do {
       j \<leftarrow> int_ok (j - 1);
       scan_down cmp a pivot j
     } else Some j
   }"

partial_function (option) partition_loop ::
  "('b \<Rightarrow> 'b \<Rightarrow> bool option) \<Rightarrow> 'b list \<Rightarrow> 'b \<Rightarrow> int \<Rightarrow> int \<Rightarrow> ('b list \<times> int \<times> int) option" where
  "partition_loop cmp a pivot i j =
     (if i \<le> j then do {
        i \<leftarrow> scan_up cmp a pivot i;
        j \<leftarrow> scan_down cmp a pivot j;
        if i \<le> j then do {
          t \<leftarrow> rd a i;
          x \<leftarrow> rd a j;
          a \<leftarrow> wr a i x;
          a \<leftarrow> wr a j t;
          i \<leftarrow> int_ok (i + 1);
          j \<leftarrow> int_ok (j - 1);
          partition_loop cmp a pivot i j
        } else partition_loop cmp a pivot i j
      } else Some (a, i, j))"

text \<open>
  One round of \<^verbatim>\<open>while (top >= 0)\<close>: pop a range, partition it, push what is left of
  it on either side (\<^verbatim>\<open>++top; L[top] = l; R[top] = r;\<close>).
\<close>

definition push :: "int list \<Rightarrow> int list \<Rightarrow> int \<Rightarrow> int \<Rightarrow> int \<Rightarrow> (int list \<times> int list \<times> int) option" where
  "push L R tp l r = do {
     tp \<leftarrow> int_ok (tp + 1);
     L \<leftarrow> wr L tp l;
     R \<leftarrow> wr R tp r;
     Some (L, R, tp)
   }"

definition sort_step ::
  "('b \<Rightarrow> 'b \<Rightarrow> bool option) \<Rightarrow> 'b list \<times> int list \<times> int list \<times> int
   \<Rightarrow> ('b list \<times> int list \<times> int list \<times> int) option" where
  "sort_step cmp st = (case st of (a, L, R, tp) \<Rightarrow> do {
     l \<leftarrow> rd L tp;
     r \<leftarrow> rd R tp;
     tp \<leftarrow> int_ok (tp - 1);
     m \<leftarrow> int_ok (l + r);
     pivot \<leftarrow> rd a (m div 2);
     (a, i, j) \<leftarrow> partition_loop cmp a pivot l r;
     (L, R, tp) \<leftarrow> (if l < j then push L R tp l j else Some (L, R, tp));
     (L, R, tp) \<leftarrow> (if i < r then push L R tp i r else Some (L, R, tp));
     Some (a, L, R, tp)
   })"

partial_function (option) sort_loop ::
  "('b \<Rightarrow> 'b \<Rightarrow> bool option) \<Rightarrow> 'b list \<times> int list \<times> int list \<times> int \<Rightarrow> 'b list option" where
  "sort_loop cmp st =
     (if 0 \<le> snd (snd (snd st)) then do {
        st \<leftarrow> sort_step cmp st;
        sort_loop cmp st
      } else Some (fst st))"

text \<open>The state at the head of the loop after \<open>k\<close> rounds, when the loop runs that long.\<close>

fun sort_rounds ::
  "('b \<Rightarrow> 'b \<Rightarrow> bool option) \<Rightarrow> nat \<Rightarrow> 'b list \<times> int list \<times> int list \<times> int
   \<Rightarrow> ('b list \<times> int list \<times> int list \<times> int) option" where
  "sort_rounds cmp 0 st = Some st"
| "sort_rounds cmp (Suc k) st =
     (case sort_rounds cmp k st of None \<Rightarrow> None
      | Some st' \<Rightarrow> if 0 \<le> snd (snd (snd st')) then sort_step cmp st' else None)"

definition node_less :: "('a \<Rightarrow> 'a \<Rightarrow> bool) \<Rightarrow> 'a state \<Rightarrow> addr option \<Rightarrow> addr option \<Rightarrow> bool option" where
  "node_less lt s p q = do {
     x \<leftarrow> deref_val s p;
     y \<leftarrow> deref_val s q;
     Some (lt x y)
   }"

text \<open>\<^verbatim>\<open>for (node *cur = head->next; cur != head; cur = cur->next) a[idx++] = cur;\<close>\<close>

partial_function (option) collect_loop ::
  "lid \<Rightarrow> addr option \<Rightarrow> addr option list \<Rightarrow> nat \<Rightarrow> 'a state \<Rightarrow> addr option list option" where
  "collect_loop this cur a idx s =
     (if cur \<noteq> get_head s this then do {
        a \<leftarrow> wr a (int idx) cur;
        n \<leftarrow> get_next s cur;
        collect_loop this n a (idx + 1) s
      } else Some a)"

text \<open>\<^verbatim>\<open>for (size_t k = 1; k < sz; ++k) { a[k-1]->next = a[k]; a[k]->prev = a[k-1]; }\<close>\<close>

partial_function (option) relink_loop ::
  "lid \<Rightarrow> addr option list \<Rightarrow> nat \<Rightarrow> 'a state \<Rightarrow> 'a state option" where
  "relink_loop this a k s =
     (if k < get_sz s this then do {
        p \<leftarrow> rd a (int k - 1);
        q \<leftarrow> rd a (int k);
        s \<leftarrow> set_next p q s;
        q \<leftarrow> rd a (int k);
        p \<leftarrow> rd a (int k - 1);
        s \<leftarrow> set_prev q p s;
        relink_loop this a (k + 1) s
      } else Some s)"

text \<open>
  \<^verbatim>\<open>sort\<close> up to the head of \<^verbatim>\<open>while (top >= 0)\<close>: the node buffer is filled from the
  chain, and the stack holds the one range \<^verbatim>\<open>0 .. (int)sz - 1\<close>.
\<close>

definition sort_start ::
  "lid \<Rightarrow> 'a state \<Rightarrow> (addr option list \<times> int list \<times> int list \<times> int) option" where
  "sort_start this s = do {
     cur \<leftarrow> get_next s (get_head s this);
     a \<leftarrow> collect_loop this cur (replicate (get_sz s this) None) 0 s;
     L \<leftarrow> wr (replicate (get_sz s this) 0) 0 0;
     r0 \<leftarrow> int_ok (to_int (get_sz s this) - 1);
     R \<leftarrow> wr (replicate (get_sz s this) 0) 0 r0;
     Some (a, L, R, 0)
   }"

definition list_sort :: "('a \<Rightarrow> 'a \<Rightarrow> bool) \<Rightarrow> lid \<Rightarrow> 'a state \<Rightarrow> 'a state option" where
  "list_sort lt this s =
     (if get_sz s this \<le> 1 then Some s
      else do {
        st \<leftarrow> sort_start this s;
        a \<leftarrow> sort_loop (node_less lt s) st;
        p \<leftarrow> rd a 0;
        s \<leftarrow> set_next (get_head s this) p s;
        p \<leftarrow> rd a 0;
        s \<leftarrow> set_prev p (get_head s this) s;
        s \<leftarrow> relink_loop this a 1 s;
        p \<leftarrow> rd a (int (get_sz s this) - 1);
        s \<leftarrow> set_next p (get_head s this) s;
        p \<leftarrow> rd a (int (get_sz s this) - 1);
        set_prev (get_head s this) p s
      })"

section \<open>The data model invariant\<close>

text \<open>
  \<open>links s zs\<close>: along \<open>zs\<close>, each node's \<open>nxt\<close> is its successor and each successor's
  \<open>prev\<close> is that node. \<open>is_list s this h xs\<close>: the list object at \<open>this\<close> has sentinel
  \<open>h\<close> and element nodes \<open>xs\<close> in traversal order: the chain \<open>h, xs, h\<close> is linked in
  both directions, its nodes are pairwise different, the sentinel holds no value, every
  element node holds one, and the size counter is the number of element nodes.
\<close>

fun links :: "'a state \<Rightarrow> addr list \<Rightarrow> bool" where
  "links s (a # b # r) \<longleftrightarrow>
     get_next s (Some a) = Some (Some b) \<and> get_prev s (Some b) = Some (Some a) \<and> links s (b # r)"
| "links s [a] \<longleftrightarrow> True"
| "links s [] \<longleftrightarrow> True"

definition is_list :: "'a state \<Rightarrow> lid \<Rightarrow> addr \<Rightarrow> addr list \<Rightarrow> bool" where
  "is_list s this h xs \<longleftrightarrow>
     get_head s this = Some h \<and> get_sz s this = length xs \<and> distinct (h # xs) \<and>
     get_val s (Some h) = Some None \<and> list_all (\<lambda>x. deref_val s (Some x) \<noteq> None) xs \<and>
     links s (h # xs @ [h])"

text \<open>The element values in traversal order.\<close>

definition value_at :: "'a state \<Rightarrow> addr \<Rightarrow> 'a" where
  "value_at s a = the (deref_val s (Some a))"

definition elems :: "'a state \<Rightarrow> addr list \<Rightarrow> 'a list" where
  "elems s xs = map (value_at s) xs"

text \<open>No node lives at or above the allocation mark.\<close>

definition store_ok :: "'a state \<Rightarrow> bool" where
  "store_ok s \<longleftrightarrow> (\<forall>a. brk s \<le> a \<longrightarrow> nodes s a = None)"



section \<open>Store updates as functions\<close>

text \<open>
  The writes of the model, as total functions on stores: a write through a pointer to no
  node changes nothing (the model's write has no result there).
\<close>

definition alloc :: "'a state \<Rightarrow> addr \<Rightarrow> bool" where
  "alloc s a \<longleftrightarrow> nodes s a \<noteq> None"

definition upd_next :: "addr \<Rightarrow> addr option \<Rightarrow> 'a state \<Rightarrow> 'a state" where
  "upd_next a q s = s\<lparr>nodes := (nodes s)(a := map_option (\<lambda>n. n\<lparr>nxt := q\<rparr>) (nodes s a))\<rparr>"

definition upd_prev :: "addr \<Rightarrow> addr option \<Rightarrow> 'a state \<Rightarrow> 'a state" where
  "upd_prev a q s = s\<lparr>nodes := (nodes s)(a := map_option (\<lambda>n. n\<lparr>prev := q\<rparr>) (nodes s a))\<rparr>"

definition del :: "addr \<Rightarrow> 'a state \<Rightarrow> 'a state" where
  "del a s = s\<lparr>nodes := (nodes s)(a := None)\<rparr>"

definition add_node :: "'a option \<Rightarrow> 'a state \<Rightarrow> 'a state" where
  "add_node v s =
     s\<lparr>nodes := (nodes s)(brk s \<mapsto> \<lparr>prev = None, nxt = None, val = v\<rparr>), brk := Suc (brk s)\<rparr>"

text \<open>
  \<open>same_outside T this s s'\<close>: from \<open>s\<close> to \<open>s'\<close> no node outside \<open>T\<close> and no list object
  other than \<open>this\<close> has changed.
\<close>

definition same_outside :: "addr set \<Rightarrow> lid \<Rightarrow> 'a state \<Rightarrow> 'a state \<Rightarrow> bool" where
  "same_outside T this s s' \<longleftrightarrow>
     (\<forall>a. a \<notin> T \<longrightarrow> get_next s' (Some a) = get_next s (Some a) \<and>
        get_prev s' (Some a) = get_prev s (Some a) \<and> get_val s' (Some a) = get_val s (Some a)) \<and>
     (\<forall>l. l \<noteq> this \<longrightarrow> get_head s' l = get_head s l \<and> get_sz s' l = get_sz s l)"

text \<open>
  \<open>npath s zs\<close>: along \<open>zs\<close>, each node's \<open>nxt\<close> is its successor. \<open>flip a s\<close> is the
  store after one round of the loop of \<^verbatim>\<open>reverse\<close> at node \<open>a\<close>.
\<close>

fun npath :: "'a state \<Rightarrow> addr list \<Rightarrow> bool" where
  "npath s (a # b # r) \<longleftrightarrow> get_next s (Some a) = Some (Some b) \<and> npath s (b # r)"
| "npath s [a] \<longleftrightarrow> True"
| "npath s [] \<longleftrightarrow> True"

definition flip :: "addr \<Rightarrow> 'a state \<Rightarrow> 'a state" where
  "flip a s =
     (case get_next s (Some a) of None \<Rightarrow> s
      | Some n \<Rightarrow> (case get_prev s (Some a) of None \<Rightarrow> s
          | Some p \<Rightarrow> upd_prev a n (upd_next a p s)))"

text \<open>
  What \<^verbatim>\<open>unique\<close> is to compute: of neighbours that compare equal under \<open>eq\<close>, the
  later one goes, and the earlier one is compared with what follows.
\<close>

fun uniq_adj :: "('b \<Rightarrow> 'b \<Rightarrow> bool) \<Rightarrow> 'b list \<Rightarrow> 'b list" where
  "uniq_adj eq (x # y # r) = (if eq x y then uniq_adj eq (x # r) else x # uniq_adj eq (y # r))"
| "uniq_adj eq [x] = [x]"
| "uniq_adj eq [] = []"

text \<open>
  What \<^verbatim>\<open>merge\<close> is to compute on two chains: the second chain's front node goes first
  only when it is less than the first chain's front node. \<open>splice x t s\<close> is the store
  after \<^verbatim>\<open>x->prev = tail; tail->next = x\<close>; \<open>quiet s s'\<close> says that from \<open>s\<close> to \<open>s'\<close>
  only \<open>prev\<close> and \<open>nxt\<close> fields have changed.
\<close>

fun merge_by :: "('b \<Rightarrow> 'b \<Rightarrow> bool) \<Rightarrow> 'b list \<Rightarrow> 'b list \<Rightarrow> 'b list" where
  "merge_by lt (x # xs) (y # ys) =
     (if lt y x then y # merge_by lt (x # xs) ys else x # merge_by lt xs (y # ys))"
| "merge_by lt [] ys = ys"
| "merge_by lt xs [] = xs"

definition splice :: "addr \<Rightarrow> addr \<Rightarrow> 'a state \<Rightarrow> 'a state" where
  "splice x t s = upd_next t (Some x) (upd_prev x (Some t) s)"

definition quiet :: "'a state \<Rightarrow> 'a state \<Rightarrow> bool" where
  "quiet s s' \<longleftrightarrow>
     (\<forall>p. get_val s' p = get_val s p) \<and>
     (\<forall>l. get_head s' l = get_head s l \<and> get_sz s' l = get_sz s l) \<and>
     brk s' = brk s \<and> (\<forall>a. alloc s' a = alloc s a)"

text \<open>
  The contract of the element type's \<^verbatim>\<open>operator<\<close>: a strict weak order. \<open>precedes x y zs\<close>:
  \<open>y\<close> occurs in \<open>zs\<close> after the first occurrence of \<open>x\<close>.
\<close>

definition strict_weak_order :: "('a \<Rightarrow> 'a \<Rightarrow> bool) \<Rightarrow> bool" where
  "strict_weak_order lt \<longleftrightarrow>
     (\<forall>x. \<not> lt x x) \<and> (\<forall>x y z. lt x y \<and> lt y z \<longrightarrow> lt x z) \<and>
     (\<forall>x y z. \<not> lt x y \<and> \<not> lt y z \<longrightarrow> \<not> lt x z)"

definition precedes :: "'b \<Rightarrow> 'b \<Rightarrow> 'b list \<Rightarrow> bool" where
  "precedes x y zs \<longleftrightarrow> y \<in> set (tl (dropWhile (\<lambda>z. z \<noteq> x) zs))"

text \<open>
  The invariant of the partition loop on the range \<open>l..r\<close> of the buffer, which started
  as \<open>a0\<close>, with pivot \<open>pv\<close>: the buffer is a rearrangement of \<open>a0\<close> within the range; left
  of \<open>i\<close> nothing is greater than the pivot and right of \<open>j\<close> nothing is less; while
  \<open>i \<le> j\<close> each scan has an entry at which it stops inside the range.
\<close>

definition part_inv ::
  "('b \<Rightarrow> 'b \<Rightarrow> bool) \<Rightarrow> 'b list \<Rightarrow> 'b \<Rightarrow> int \<Rightarrow> int \<Rightarrow> 'b list \<Rightarrow> int \<Rightarrow> int \<Rightarrow> bool" where
  "part_inv LT a0 pv l r a i j \<longleftrightarrow>
     length a = length a0 \<and> mset a = mset a0 \<and>
     (\<forall>k. 0 \<le> k \<and> k < int (length a) \<and> (k < l \<or> r < k) \<longrightarrow> a ! nat k = a0 ! nat k) \<and>
     (\<forall>k. l \<le> k \<and> k \<le> r \<longrightarrow> (\<exists>k'. l \<le> k' \<and> k' \<le> r \<and> a ! nat k = a0 ! nat k')) \<and>
     l \<le> i \<and> i \<le> r + 1 \<and> l - 1 \<le> j \<and> j \<le> r \<and>
     (\<forall>k. l \<le> k \<and> k < i \<longrightarrow> \<not> LT pv (a ! nat k)) \<and>
     (\<forall>k. j < k \<and> k \<le> r \<longrightarrow> \<not> LT (a ! nat k) pv) \<and>
     (i \<le> j \<longrightarrow> (\<exists>k. i \<le> k \<and> k \<le> r \<and> \<not> LT (a ! nat k) pv) \<and>
                (\<exists>k. l \<le> k \<and> k \<le> j \<and> \<not> LT pv (a ! nat k))) \<and>
     ((i = l \<and> j = r \<and> (\<exists>m. l \<le> m \<and> m \<le> r \<and> \<not> LT (a ! nat m) pv \<and> \<not> LT pv (a ! nat m))) \<or>
      (l < i \<and> j < r))"

text \<open>
  The explicit stack as a list of ranges, bottom first, and the invariant of the outer
  loop of the quicksort: the buffer is a rearrangement of the initial one; the ranges
  on the stack lie inside the buffer, hold at least two cells each, are pairwise
  disjoint and together no longer than the buffer; and any two cells that are not
  both inside one range of the stack are already in order.
\<close>

definition stack_of :: "int list \<Rightarrow> int list \<Rightarrow> int \<Rightarrow> (int \<times> int) list" where
  "stack_of L R tp = map (\<lambda>k. (L ! k, R ! k)) [0..<nat (tp + 1)]"

fun disj_ranges :: "(int \<times> int) list \<Rightarrow> bool" where
  "disj_ranges [] \<longleftrightarrow> True"
| "disj_ranges (x # rs) \<longleftrightarrow> (\<forall>y\<in>set rs. snd x < fst y \<or> snd y < fst x) \<and> disj_ranges rs"

definition stack_inv :: "('b \<Rightarrow> 'b \<Rightarrow> bool) \<Rightarrow> nat \<Rightarrow> 'b list \<Rightarrow> (int \<times> int) list \<Rightarrow> bool" where
  "stack_inv LT n a stk \<longleftrightarrow>
     (\<forall>x\<in>set stk. 0 \<le> fst x \<and> fst x < snd x \<and> snd x < int n) \<and>
     disj_ranges stk \<and>
     sum_list (map (\<lambda>x. snd x - fst x + 1) stk) \<le> int n \<and>
     (\<forall>p q. 0 \<le> p \<and> p < q \<and> q < int n \<and> \<not> (\<exists>x\<in>set stk. fst x \<le> p \<and> q \<le> snd x)
        \<longrightarrow> \<not> LT (a ! nat q) (a ! nat p))"

definition sort_inv ::
  "('b \<Rightarrow> 'b \<Rightarrow> bool) \<Rightarrow> 'b list \<Rightarrow> 'b list \<times> int list \<times> int list \<times> int \<Rightarrow> bool" where
  "sort_inv LT a0 st \<longleftrightarrow> (case st of (a, L, R, tp) \<Rightarrow>
     length a = length a0 \<and> mset a = mset a0 \<and>
     length L = length a0 \<and> length R = length a0 \<and> - 1 \<le> tp \<and>
     stack_inv LT (length a0) a (stack_of L R tp))"

definition stack_measure :: "(int \<times> int) list \<Rightarrow> nat" where
  "stack_measure stk = nat (sum_list (map (\<lambda>x. 2 * (snd x - fst x) + 1) stk))"

text \<open>
  The relinking at the end of \<^verbatim>\<open>sort\<close>: \<open>link a b s\<close> is the store after
  \<^verbatim>\<open>a->next = b; b->prev = a\<close>, and \<open>link_all s zs\<close> links each node of \<open>zs\<close> to its
  successor, front to back.
\<close>

definition link :: "addr \<Rightarrow> addr \<Rightarrow> 'a state \<Rightarrow> 'a state" where
  "link a b s = upd_prev b (Some a) (upd_next a (Some b) s)"

fun link_all :: "'a state \<Rightarrow> addr list \<Rightarrow> 'a state" where
  "link_all s (a # b # r) = link_all (link a b s) (b # r)"
| "link_all s [a] = s"
| "link_all s [] = s"

section \<open>Example stores\<close>

text \<open>
  \<open>ring h xs vs\<close> are the nodes of a well-formed chain with sentinel \<open>h\<close> and element
  nodes \<open>xs\<close> holding the values \<open>vs\<close>; \<open>add_ring this h xs vs s\<close> puts them into the
  store \<open>s\<close> as the list object at \<open>this\<close>.
\<close>

fun ring_links :: "addr \<Rightarrow> addr \<Rightarrow> addr list \<Rightarrow> 'a list \<Rightarrow> (addr \<times> 'a node) list" where
  "ring_links h p (x # xs) (v # vs) =
     (x, \<lparr>prev = Some p, nxt = Some (hd (xs @ [h])), val = Some v\<rparr>) # ring_links h x xs vs"
| "ring_links h p _ _ = []"

definition ring :: "addr \<Rightarrow> addr list \<Rightarrow> 'a list \<Rightarrow> (addr \<times> 'a node) list" where
  "ring h xs vs =
     (h, \<lparr>prev = Some (last (h # xs)), nxt = Some (hd (xs @ [h])), val = None\<rparr>) # ring_links h h xs vs"

definition empty_store :: "'a state" where
  "empty_store = \<lparr>nodes = (\<lambda>_. None), list_objs = (\<lambda>_. \<lparr>head = None, sz = 0\<rparr>), brk = 0\<rparr>"

definition add_ring :: "lid \<Rightarrow> addr \<Rightarrow> addr list \<Rightarrow> 'a list \<Rightarrow> 'a state \<Rightarrow> 'a state" where
  "add_ring this h xs vs s =
     s\<lparr>nodes := nodes s ++ map_of (ring h xs vs),
       list_objs := (list_objs s)(this := \<lparr>head = Some h, sz = length xs\<rparr>),
       brk := max (brk s) (Suc (fold max xs h))\<rparr>"

definition ex123 :: "int state" where
  "ex123 = add_ring 0 0 [1, 2, 3] [10, 20, 30] empty_store"

definition ex_empty :: "int state" where
  "ex_empty = add_ring 0 0 [] [] empty_store"

definition ex_runs :: "int state" where
  "ex_runs = add_ring 0 0 [11, 12, 13, 14, 15, 16, 17] [1, 1, 2, 2, 2, 3, 1] empty_store"

definition ex_merge :: "int state" where
  "ex_merge = add_ring 6 20 [21, 22, 23] [2, 3, 4]
                (add_ring 5 10 [11, 12, 13, 14] [1, 3, 3, 5] empty_store)"

text \<open>
  The store after \<^verbatim>\<open>a = [1]; b = [2]; it = b.begin(); a.merge(b); b.push_back(5)\<close>: the
  node 21 that \<open>it\<close> refers to now belongs to \<open>a\<close> (list object 5), while \<open>it\<close> still
  names \<open>b\<close> (list object 6) as its owner.
\<close>

definition ex_stale :: "int state" where
  "ex_stale = add_ring 6 20 [22] [5] (add_ring 5 10 [11, 21] [1, 2] empty_store)"

definition ex_stale_it :: iterator where
  "ex_stale_it = \<lparr>owner = Some 6, ptr = Some 21\<rparr>"


definition ex_sort :: "int state" where
  "ex_sort = add_ring 7 30 [31, 32, 33, 34, 35] [3, 1, 2, 5, 4] empty_store"

definition ex_sort2 :: "int state" where
  "ex_sort2 = add_ring 8 40 [41, 42, 43, 44, 45, 46] [1, 2, 5, 3, 4, 6] empty_store"


section \<open>Facts about the store\<close>

lemma get_None [simp]:
  "get_next s None = None" "get_prev s None = None" "get_val s None = None"
  "deref_val s None = None"
  by (simp_all add: get_next_def get_prev_def get_val_def deref_val_def get_node_def)

lemma alloc_iff:
  "alloc s a \<longleftrightarrow> get_val s (Some a) \<noteq> None"
  "alloc s a \<longleftrightarrow> get_next s (Some a) \<noteq> None"
  "alloc s a \<longleftrightarrow> get_prev s (Some a) \<noteq> None"
  by (simp_all add: alloc_def get_next_def get_prev_def get_val_def get_node_def)

lemma allocI:
  "get_next s (Some a) = Some x \<Longrightarrow> alloc s a"
  "get_prev s (Some a) = Some y \<Longrightarrow> alloc s a"
  "get_val s (Some a) = Some z \<Longrightarrow> alloc s a"
  "deref_val s (Some a) = Some v \<Longrightarrow> alloc s a"
  by (auto simp: alloc_def get_next_def get_prev_def get_val_def get_node_def deref_val_def
      split: option.splits bind_splits)

lemma get_Some_alloc:
  "alloc s a \<Longrightarrow> \<exists>x. get_next s (Some a) = Some x"
  "alloc s a \<Longrightarrow> \<exists>x. get_prev s (Some a) = Some x"
  "alloc s a \<Longrightarrow> \<exists>x. get_val s (Some a) = Some x"
  by (auto simp: alloc_def get_next_def get_prev_def get_val_def get_node_def)

lemma set_simps [simp]:
  "set_next None q s = None"
  "set_prev None q s = None"
  "set_next (Some a) q s = (if alloc s a then Some (upd_next a q s) else None)"
  "set_prev (Some a) q s = (if alloc s a then Some (upd_prev a q s) else None)"
  "delete_node None s = Some s"
  "delete_node (Some a) s = (if alloc s a then Some (del a s) else None)"
  "new_node v s = (brk s, add_node v s)"
  by (auto simp: set_next_def set_prev_def delete_node_def new_node_def add_node_def alloc_def
      upd_next_def upd_prev_def del_def split: option.splits)

lemma upd_next_obs [simp]:
  "get_next (upd_next a q s) (Some b) =
     (if b = a then map_option (\<lambda>_. q) (get_next s (Some a)) else get_next s (Some b))"
  "get_prev (upd_next a q s) p = get_prev s p"
  "get_val (upd_next a q s) p = get_val s p"
  "deref_val (upd_next a q s) p = deref_val s p"
  "get_head (upd_next a q s) l = get_head s l"
  "get_sz (upd_next a q s) l = get_sz s l"
  "brk (upd_next a q s) = brk s"
  "alloc (upd_next a q s) b = alloc s b"
  by (simp_all add: upd_next_def get_next_def get_prev_def get_val_def deref_val_def
      get_node_def get_head_def get_sz_def alloc_def option.map_comp comp_def
      split: option.splits)

lemma upd_prev_obs [simp]:
  "get_prev (upd_prev a q s) (Some b) =
     (if b = a then map_option (\<lambda>_. q) (get_prev s (Some a)) else get_prev s (Some b))"
  "get_next (upd_prev a q s) p = get_next s p"
  "get_val (upd_prev a q s) p = get_val s p"
  "deref_val (upd_prev a q s) p = deref_val s p"
  "get_head (upd_prev a q s) l = get_head s l"
  "get_sz (upd_prev a q s) l = get_sz s l"
  "brk (upd_prev a q s) = brk s"
  "alloc (upd_prev a q s) b = alloc s b"
  by (simp_all add: upd_prev_def get_next_def get_prev_def get_val_def deref_val_def
      get_node_def get_head_def get_sz_def alloc_def option.map_comp comp_def
      split: option.splits)

lemma del_obs [simp]:
  "get_next (del a s) (Some b) = (if b = a then None else get_next s (Some b))"
  "get_prev (del a s) (Some b) = (if b = a then None else get_prev s (Some b))"
  "get_val (del a s) (Some b) = (if b = a then None else get_val s (Some b))"
  "deref_val (del a s) (Some b) = (if b = a then None else deref_val s (Some b))"
  "get_head (del a s) l = get_head s l"
  "get_sz (del a s) l = get_sz s l"
  "brk (del a s) = brk s"
  "alloc (del a s) b = (b \<noteq> a \<and> alloc s b)"
  by (simp_all add: del_def get_next_def get_prev_def get_val_def deref_val_def
      get_node_def get_head_def get_sz_def alloc_def)

lemma add_node_obs [simp]:
  "get_next (add_node v s) (Some b) = (if b = brk s then Some None else get_next s (Some b))"
  "get_prev (add_node v s) (Some b) = (if b = brk s then Some None else get_prev s (Some b))"
  "get_val (add_node v s) (Some b) = (if b = brk s then Some v else get_val s (Some b))"
  "deref_val (add_node v s) (Some b) = (if b = brk s then v else deref_val s (Some b))"
  "get_head (add_node v s) l = get_head s l"
  "get_sz (add_node v s) l = get_sz s l"
  "brk (add_node v s) = Suc (brk s)"
  "alloc (add_node v s) b = (b = brk s \<or> alloc s b)"
  by (simp_all add: add_node_def get_next_def get_prev_def get_val_def deref_val_def
      get_node_def get_head_def get_sz_def alloc_def)

lemma set_sz_obs [simp]:
  "get_next (set_sz l n s) p = get_next s p"
  "get_prev (set_sz l n s) p = get_prev s p"
  "get_val (set_sz l n s) p = get_val s p"
  "deref_val (set_sz l n s) p = deref_val s p"
  "get_head (set_sz l n s) l' = get_head s l'"
  "get_sz (set_sz l n s) l' = (if l' = l then n else get_sz s l')"
  "brk (set_sz l n s) = brk s"
  "alloc (set_sz l n s) b = alloc s b"
  by (simp_all add: set_sz_def get_next_def get_prev_def get_val_def deref_val_def
      get_node_def get_head_def get_sz_def alloc_def split: option.splits)

lemma set_head_obs [simp]:
  "get_next (set_head l h s) p = get_next s p"
  "get_prev (set_head l h s) p = get_prev s p"
  "get_val (set_head l h s) p = get_val s p"
  "deref_val (set_head l h s) p = deref_val s p"
  "get_head (set_head l h s) l' = (if l' = l then h else get_head s l')"
  "get_sz (set_head l h s) l' = get_sz s l'"
  "brk (set_head l h s) = brk s"
  "alloc (set_head l h s) b = alloc s b"
  by (simp_all add: set_head_def get_next_def get_prev_def get_val_def deref_val_def
      get_node_def get_head_def get_sz_def alloc_def split: option.splits)

lemma store_ok_alloc: "store_ok s \<longleftrightarrow> (\<forall>a. alloc s a \<longrightarrow> a < brk s)"
  by (auto simp: store_ok_def alloc_def not_le[symmetric])

lemma store_ok_upd [simp]:
  "store_ok (upd_next a q s) = store_ok s"
  "store_ok (upd_prev a q s) = store_ok s"
  "store_ok (set_sz l n s) = store_ok s"
  "store_ok (set_head l h s) = store_ok s"
  by (simp_all add: store_ok_alloc)

lemma store_ok_del: "store_ok s \<Longrightarrow> store_ok (del a s)"
  by (simp add: store_ok_alloc)



lemma links_append:
  "links s (xs @ ys) \<longleftrightarrow>
     links s xs \<and> links s ys \<and>
     (xs \<noteq> [] \<longrightarrow> ys \<noteq> [] \<longrightarrow>
        get_next s (Some (last xs)) = Some (Some (hd ys)) \<and>
        get_prev s (Some (hd ys)) = Some (Some (last xs)))"
proof (induction s xs rule: links.induct)
  case (2 s a)
  then show ?case by (cases ys) auto
qed auto

lemma links_frame:
  assumes "links s zs"
    and "\<And>a. a \<in> set (butlast zs) \<Longrightarrow> get_next s' (Some a) = get_next s (Some a)"
    and "\<And>a. a \<in> set (tl zs) \<Longrightarrow> get_prev s' (Some a) = get_prev s (Some a)"
  shows "links s' zs"
  using assms
proof (induction s zs rule: links.induct)
  case (1 s a b r)
  then show ?case by auto
qed auto

lemma links_alloc:
  assumes "links s zs" and "2 \<le> length zs" and "a \<in> set zs"
  shows "alloc s a"
  using assms
proof (induction s zs rule: links.induct)
  case (1 s x y r)
  show ?case
  proof (cases r)
    case Nil
    then show ?thesis using 1 by (auto intro: allocI)
  next
    case (Cons z r')
    then show ?thesis using 1 by (auto intro: allocI)
  qed
qed auto

lemma is_list_last_prev:
  assumes "is_list s this h xs"
  shows "get_prev s (Some h) = Some (Some (last (h # xs)))"
proof -
  have "links s ((h # xs) @ [h])" using assms by (simp add: is_list_def)
  then show ?thesis unfolding links_append by simp
qed

lemma is_list_first_next:
  assumes "is_list s this h xs"
  shows "get_next s (Some h) = Some (Some (hd (xs @ [h])))"
proof -
  have "links s ([h] @ (xs @ [h]))" using assms by (simp add: is_list_def)
  then show ?thesis unfolding links_append by simp
qed

lemma is_list_alloc:
  assumes "is_list s this h xs" and "a \<in> set (h # xs)"
  shows "alloc s a"
proof -
  have "links s (h # xs @ [h])" using assms by (simp add: is_list_def)
  moreover have "2 \<le> length (h # xs @ [h])" by simp
  moreover have "a \<in> set (h # xs @ [h])" using assms by auto
  ultimately show ?thesis by (rule links_alloc)
qed

lemma is_list_frame:
  assumes "is_list s this h xs"
    and "get_head s' this = get_head s this"
    and "get_sz s' this = get_sz s this"
    and "\<And>a. a \<in> set (h # xs) \<Longrightarrow> get_next s' (Some a) = get_next s (Some a)"
    and "\<And>a. a \<in> set (h # xs) \<Longrightarrow> get_prev s' (Some a) = get_prev s (Some a)"
    and "\<And>a. a \<in> set (h # xs) \<Longrightarrow> get_val s' (Some a) = get_val s (Some a)"
  shows "is_list s' this h xs"
proof -
  have l: "links s (h # xs @ [h])" using assms(1) by (simp add: is_list_def)
  have "links s' (h # xs @ [h])"
    by (rule links_frame[OF l]) (auto simp: assms(4,5) dest: in_set_butlastD)
  moreover have "list_all (\<lambda>x. deref_val s' (Some x) \<noteq> None) xs"
    using assms(1,6) by (auto simp: is_list_def list_all_iff deref_val_def)
  ultimately show ?thesis
    using assms by (simp add: is_list_def)
qed

section \<open>Facts about the link operations\<close>

lemma same_outside_refl: "same_outside T this s s"
  by (simp add: same_outside_def)

lemma same_outside_trans:
  assumes "same_outside T this s s'" and "same_outside T' this s' s''" and "T \<subseteq> U" and "T' \<subseteq> U"
  shows "same_outside U this s s''"
proof -
  have "a \<notin> T \<and> a \<notin> T'" if "a \<notin> U" for a using that assms(3,4) by auto
  then show ?thesis using assms(1,2) by (simp add: same_outside_def)
qed


lemma value_at_same:
  "get_val s' (Some a) = get_val s (Some a) \<Longrightarrow> value_at s' a = value_at s a"
  by (simp add: value_at_def deref_val_def)

lemma elems_same:
  "(\<And>a. a \<in> set xs \<Longrightarrow> get_val s' (Some a) = get_val s (Some a)) \<Longrightarrow> elems s' xs = elems s xs"
  by (auto simp: elems_def intro: value_at_same)

lemma erase_node_comp:
  assumes "get_prev s (Some p) = Some (Some pp)" and "get_next s (Some p) = Some (Some pn)"
    and "alloc s pp" and "alloc s pn" and "p \<noteq> pp" and "p \<noteq> pn"
  shows "erase_node this (Some p) s =
     Some (Some p, set_sz this (if get_sz s this = 0 then 2 ^ 64 - 1 else get_sz s this - 1)
        (upd_prev p None (upd_next p None (upd_prev pn (Some pp) (upd_next pp (Some pn) s)))))"
proof -
  have "alloc s p" using assms(1) by (rule allocI)
  then show ?thesis using assms by (simp add: erase_node_def)
qed

lemma distinct_last_butlast: "distinct xs \<Longrightarrow> xs \<noteq> [] \<Longrightarrow> last xs \<notin> set (butlast xs)"
  by (metis append_butlast_last_id distinct_append distinct.simps(2) disjoint_iff list.set_intros(1) not_distinct_conv_prefix)

lemma distinct_hd_tl: "distinct xs \<Longrightarrow> xs \<noteq> [] \<Longrightarrow> hd xs \<notin> set (tl xs)"
  by (cases xs) auto

lemma in_set_tlD: "x \<in> set (tl xs) \<Longrightarrow> x \<in> set xs"
  by (cases xs) auto

lemma links_Cons:
  "links s (a # ys) \<longleftrightarrow>
     links s ys \<and> (ys \<noteq> [] \<longrightarrow>
        get_next s (Some a) = Some (Some (hd ys)) \<and> get_prev s (Some (hd ys)) = Some (Some a))"
  by (cases ys) auto

lemma erase_node_list:
  assumes "is_list s this h (ys @ p # zs)"
  shows "\<exists>s'. erase_node this (Some p) s = Some (Some p, s') \<and> is_list s' this h (ys @ zs) \<and>
     alloc s' p \<and> (\<forall>a. a \<noteq> p \<longrightarrow> alloc s' a = alloc s a) \<and>
     (\<forall>a. get_val s' (Some a) = get_val s (Some a)) \<and>
     same_outside (set (h # ys @ p # zs)) this s s' \<and> brk s' = brk s"
proof -
  define pp where "pp = last (h # ys)"
  define pn where "pn = hd (zs @ [h])"
  define A where "A = h # ys"
  define B where "B = zs @ [h]"
  have d: "distinct (h # ys @ p # zs)" and hd: "get_head s this = Some h"
    and sz: "get_sz s this = length (ys @ p # zs)"
    and vh: "get_val s (Some h) = Some None"
    and vs: "list_all (\<lambda>x. deref_val s (Some x) \<noteq> None) (ys @ p # zs)"
    using assms by (simp_all add: is_list_def)
  have neAB: "A \<noteq> []" "B \<noteq> []" "last A = pp" "hd B = pn"
    by (simp_all add: A_def B_def pp_def pn_def)
  have "links s (A @ p # B)" using assms by (simp add: is_list_def A_def B_def)
  then have lA: "links s A" and lB: "links s B"
    and pprev: "get_prev s (Some p) = Some (Some pp)" and pnext: "get_next s (Some p) = Some (Some pn)"
    and ppn: "get_next s (Some pp) = Some (Some p)" and pnp: "get_prev s (Some pn) = Some (Some p)"
    using neAB by (simp_all add: links_append links_Cons)
  have app: "alloc s pp" and apn: "alloc s pn" and ap: "alloc s p"
    using ppn pnp pprev by (auto intro: allocI)
  have ne: "p \<noteq> pp" "p \<noteq> pn" using d by (auto simp: pp_def pn_def hd_append)
  let ?s' = "set_sz this (if get_sz s this = 0 then 2 ^ 64 - 1 else get_sz s this - 1)
        (upd_prev p None (upd_next p None (upd_prev pn (Some pp) (upd_next pp (Some pn) s))))"
  have comp: "erase_node this (Some p) s = Some (Some p, ?s')"
    by (rule erase_node_comp[OF pprev pnext app apn ne])
  have mem: "pp \<in> set A" "pn \<in> set B"
    using neAB last_in_set[of A] hd_in_set[of B] by auto
  have dA: "distinct A" and dB: "distinct B" and pA: "p \<notin> set A" and pB: "p \<notin> set B"
    and AB: "set (tl A) \<inter> set B = {}" "set A \<inter> set (butlast B) = {}"
    using d by (auto simp: A_def B_def butlast_append)
  have ppA: "pp \<notin> set (butlast A)" "pn \<notin> set (tl A)"
    using dA distinct_last_butlast[of A] neAB mem AB by auto
  have pnB: "pn \<notin> set (tl B)" "pp \<notin> set (butlast B)"
    using dB distinct_hd_tl[of B] neAB mem AB by auto
  have lA': "links ?s' A"
    by (rule links_frame[OF lA]) (use ppA pA in \<open>auto dest: in_set_butlastD in_set_tlD\<close>)
  have lB': "links ?s' B"
    by (rule links_frame[OF lB]) (use pnB pB in \<open>auto dest: in_set_butlastD in_set_tlD\<close>)
  have "links ?s' (A @ B)"
    using lA' lB' ne ppn pnp neAB by (simp add: links_append)
  then have "is_list ?s' this h (ys @ zs)"
    using d hd sz vh vs by (simp add: is_list_def A_def B_def list_all_iff)
  moreover have "same_outside (set (h # ys @ p # zs)) this s ?s'"
    using mem by (auto simp: A_def B_def same_outside_def)
  ultimately show ?thesis using comp ap by simp
qed

section \<open>Facts about erase\<close>

lemma list_erase_throws:
  "list_erase this pos s = Some (Inl e, s') \<longleftrightarrow>
     s' = s \<and> (if get_sz s this = 0 then e = container_is_empty
               else e = invalid_iterator \<and>
                 (owner pos \<noteq> Some this \<or> ptr pos = None \<or> ptr pos = get_head s this))"
  by (auto simp: list_erase_def split: bind_splits prod.splits)

lemma list_erase_list:
  assumes "is_list s this h (ys @ p # zs)"
  shows "\<exists>s'. list_erase this \<lparr>owner = Some this, ptr = Some p\<rparr> s =
           Some (Inr \<lparr>owner = Some this, ptr = Some (hd (zs @ [h]))\<rparr>, s') \<and>
         is_list s' this h (ys @ zs) \<and> \<not> alloc s' p \<and>
         (\<forall>a. a \<noteq> p \<longrightarrow> alloc s' a = alloc s a) \<and>
         (\<forall>a. a \<noteq> p \<longrightarrow> get_val s' (Some a) = get_val s (Some a)) \<and>
         same_outside (set (h # ys @ p # zs)) this s s' \<and> brk s' = brk s"
proof -
  obtain s1 where e: "erase_node this (Some p) s = Some (Some p, s1)"
    and l1: "is_list s1 this h (ys @ zs)" and a1: "alloc s1 p"
    and al: "\<forall>a. a \<noteq> p \<longrightarrow> alloc s1 a = alloc s a"
    and v1: "\<forall>a. get_val s1 (Some a) = get_val s (Some a)"
    and f1: "same_outside (set (h # ys @ p # zs)) this s s1" and b1: "brk s1 = brk s"
    using erase_node_list[OF assms] by blast
  have hd: "get_head s this = Some h" and sz: "get_sz s this \<noteq> 0" and ne: "p \<noteq> h"
    and d: "p \<notin> set (h # ys @ zs)"
    using assms by (auto simp: is_list_def)
  have nx: "get_next s (Some p) = Some (Some (hd (zs @ [h])))"
  proof -
    have "links s ((h # ys) @ p # (zs @ [h]))" using assms by (simp add: is_list_def)
    then show ?thesis by (simp add: links_append links_Cons)
  qed
  have l2: "is_list (del p s1) this h (ys @ zs)"
    by (rule is_list_frame[OF l1]) (use d in auto)
  have "same_outside (set (h # ys @ p # zs)) this s (del p s1)"
    using f1 by (auto simp: same_outside_def)
  then show ?thesis
    using e a1 hd sz ne nx l2 al v1 b1 by (simp add: list_erase_def)
qed

section \<open>Facts about insert\<close>


lemma list_insert_throws:
  "list_insert this pos v s = Some (Inl e, s') \<longleftrightarrow>
     s' = s \<and> e = invalid_iterator \<and> (owner pos \<noteq> Some this \<or> ptr pos = None)"
  by (auto simp: list_insert_def split: bind_splits prod.splits)


section \<open>Facts about the wrappers and the throwing paths\<close>





lemma list_pop_throws:
  "list_pop_back this s = Some (Inl e, s') \<Longrightarrow> s' = s"
  "list_pop_front this s = Some (Inl e, s') \<Longrightarrow> s' = s"
  by (auto simp: list_pop_back_def list_pop_front_def list_erase_throws
      split: if_splits bind_splits option.splits prod.splits sum.splits)

lemma list_front_back_throws:
  "list_front this s = Some (Inl e, s') \<Longrightarrow> s' = s"
  "list_back this s = Some (Inl e, s') \<Longrightarrow> s' = s"
  by (auto simp: list_front_def list_back_def split: if_splits bind_splits)

lemma iterator_throws:
  "iterator_pre_inc s it = Some (Inl e, it') \<Longrightarrow> it' = it"
  "iterator_post_inc s it = Some (Inl e, it') \<Longrightarrow> it' = it"
  "iterator_pre_dec s it = Some (Inl e, it') \<Longrightarrow> it' = it"
  "iterator_post_dec s it = Some (Inl e, it') \<Longrightarrow> it' = it"
  "iterator_deref s it = Some (Inl e2, it') \<Longrightarrow> it' = it"
  "iterator_arrow s it = Some (Inl e3, it') \<Longrightarrow> it' = it"
  by (auto simp: iterator_pre_inc_def iterator_post_inc_def iterator_pre_dec_def
      iterator_post_dec_def iterator_deref_def iterator_arrow_def
      split: if_splits bind_splits option.splits)

lemma const_iterator_throws:
  "const_iterator_pre_inc s it = Some (Inl e, it') \<Longrightarrow> it' = it"
  "const_iterator_post_inc s it = Some (Inl e, it') \<Longrightarrow> it' = it"
  "const_iterator_pre_dec s it = Some (Inl e, it') \<Longrightarrow> it' = it"
  "const_iterator_post_dec s it = Some (Inl e, it') \<Longrightarrow> it' = it"
  "const_iterator_deref s it = Some (Inl e2, it') \<Longrightarrow> it' = it"
  "const_iterator_arrow s it = Some (Inl e3, it') \<Longrightarrow> it' = it"
  by (auto simp: const_iterator_pre_inc_def const_iterator_post_inc_def const_iterator_pre_dec_def
      const_iterator_post_dec_def const_iterator_deref_def const_iterator_arrow_def
      split: if_splits bind_splits option.splits)

section \<open>Facts about reverse\<close>

lemma links_npath: "links s zs \<Longrightarrow> npath s zs"
  by (induction s zs rule: links.induct) auto

lemma npath_Cons:
  "npath s (a # ys) \<longleftrightarrow> npath s ys \<and> (ys \<noteq> [] \<longrightarrow> get_next s (Some a) = Some (Some (hd ys)))"
  by (cases ys) auto

lemma npath_append:
  "npath s (xs @ ys) \<longleftrightarrow>
     npath s xs \<and> npath s ys \<and>
     (xs \<noteq> [] \<longrightarrow> ys \<noteq> [] \<longrightarrow> get_next s (Some (last xs)) = Some (Some (hd ys)))"
proof (induction s xs rule: npath.induct)
  case (2 s a)
  then show ?case by (cases ys) auto
qed auto

lemma npath_frame:
  assumes "npath s zs"
    and "\<And>a. a \<in> set (butlast zs) \<Longrightarrow> get_next s' (Some a) = get_next s (Some a)"
  shows "npath s' zs"
  using assms
proof (induction s zs rule: npath.induct)
  case (1 s a b r)
  then show ?case by auto
qed auto

lemma flip_obs [simp]:
  "get_next (flip a s) (Some b) = (if b = a then get_prev s (Some a) else get_next s (Some b))"
  "get_prev (flip a s) (Some b) = (if b = a then get_next s (Some a) else get_prev s (Some b))"
  "get_val (flip a s) p = get_val s p"
  "deref_val (flip a s) p = deref_val s p"
  "get_head (flip a s) l = get_head s l"
  "get_sz (flip a s) l = get_sz s l"
  "brk (flip a s) = brk s"
  "alloc (flip a s) b = alloc s b"
  using alloc_iff(2,3)[of s a]
  by (auto simp: flip_def split: option.splits)

lemma store_ok_flip [simp]: "store_ok (flip a s) = store_ok s"
  by (simp add: store_ok_alloc)

lemma fold_flip_obs:
  "distinct L \<Longrightarrow> get_next (fold flip L s) (Some b) =
     (if b \<in> set L then get_prev s (Some b) else get_next s (Some b))"
  "distinct L \<Longrightarrow> get_prev (fold flip L s) (Some b) =
     (if b \<in> set L then get_next s (Some b) else get_prev s (Some b))"
  "get_val (fold flip L s) p = get_val s p"
  "get_head (fold flip L s) l = get_head s l"
  "get_sz (fold flip L s) l = get_sz s l"
  "brk (fold flip L s) = brk s"
  "alloc (fold flip L s) b = alloc s b"
  by (induction L arbitrary: s; auto)+

lemma reverse_loop_run:
  assumes "npath s (c # rest @ [h])" and "distinct (c # rest)" and "h \<notin> set rest"
    and "get_head s this = Some h"
  shows "reverse_loop this (Some c) s = Some (fold flip (c # rest) s)"
  using assms
proof (induction rest arbitrary: c s)
  case Nil
  then have n: "get_next s (Some c) = Some (Some h)" by simp
  then obtain p where p: "get_prev s (Some c) = Some p"
    using get_Some_alloc(2)[OF allocI(1)] by blast
  have a: "alloc s c" using n by (rule allocI)
  show ?case
    using n p a Nil.prems(4) by (subst reverse_loop.simps) (simp add: flip_def)
next
  case (Cons x rest)
  then have n: "get_next s (Some c) = Some (Some x)" by simp
  then obtain p where p: "get_prev s (Some c) = Some p"
    using get_Some_alloc(2)[OF allocI(1)] by blast
  have a: "alloc s c" using n by (rule allocI)
  have xh: "x \<noteq> h" using Cons.prems(3) by simp
  have fl: "flip c s = upd_prev c (Some x) (upd_next c p s)"
    using n p by (simp add: flip_def)
  have np: "npath (flip c s) (x # rest @ [h])"
  proof (rule npath_frame)
    show "npath s (x # rest @ [h])" using Cons.prems(1) by simp
    show "get_next (flip c s) (Some a) = get_next s (Some a)"
      if "a \<in> set (butlast (x # rest @ [h]))" for a
      using that Cons.prems(2) by (auto simp: butlast_append)
  qed
  have "reverse_loop this (Some x) (flip c s) = Some (fold flip (x # rest) (flip c s))"
    by (rule Cons.IH[OF np]) (use Cons.prems in auto)
  then show ?case
    using n p a xh Cons.prems(4) fl by (subst reverse_loop.simps) simp
qed

lemma links_rev:
  assumes "links s zs"
    and "\<And>a. a \<in> set zs \<Longrightarrow> get_next s' (Some a) = get_prev s (Some a)"
    and "\<And>a. a \<in> set zs \<Longrightarrow> get_prev s' (Some a) = get_next s (Some a)"
  shows "links s' (rev zs)"
  using assms
proof (induction zs)
  case Nil
  then show ?case by simp
next
  case (Cons a zs)
  have l: "links s zs" and c: "zs \<noteq> [] \<longrightarrow>
        get_next s (Some a) = Some (Some (hd zs)) \<and> get_prev s (Some (hd zs)) = Some (Some a)"
    using Cons.prems(1) by (simp_all add: links_Cons)
  have "links s' (rev zs)" by (rule Cons.IH[OF l]) (use Cons.prems in auto)
  then show ?case
    using c Cons.prems(2)[of a] Cons.prems(3)[of a] Cons.prems(2)[of "hd zs"] Cons.prems(3)[of "hd zs"]
    by (auto simp: links_append last_rev)
qed

lemma list_reverse_list:
  assumes "is_list s this h xs"
  shows "\<exists>s'. list_reverse this s = Some s' \<and> is_list s' this h (rev xs) \<and>
     (\<forall>p. get_val s' p = get_val s p) \<and> (\<forall>a. alloc s' a = alloc s a) \<and>
     same_outside (set (h # xs)) this s s' \<and> brk s' = brk s"
proof (cases "length xs \<le> 1")
  case True
  then have "rev xs = xs" by (cases xs) auto
  then show ?thesis using assms True by (simp add: list_reverse_def is_list_def same_outside_refl)
next
  case False
  have d: "distinct (h # xs)" and hd: "get_head s this = Some h"
    and sz: "get_sz s this = length xs"
    and vh: "get_val s (Some h) = Some None"
    and vs: "list_all (\<lambda>x. deref_val s (Some x) \<noteq> None) xs"
    and l: "links s (h # xs @ [h])"
    using assms by (simp_all add: is_list_def)
  let ?s' = "fold flip (h # xs) s"
  have run: "reverse_loop this (Some h) s = Some ?s'"
    by (rule reverse_loop_run) (use l d hd links_npath[OF l] in auto)
  have "links ?s' (rev (h # xs @ [h]))"
    by (rule links_rev[OF l]) (use d in \<open>auto simp: fold_flip_obs simp del: fold_simps\<close>)
  then have "links ?s' (h # rev xs @ [h])" by simp
  then have "is_list ?s' this h (rev xs)"
    using d hd sz vh vs
    by (simp add: is_list_def fold_flip_obs list_all_iff deref_val_def del: fold_simps)
  moreover have "same_outside (set (h # xs)) this s ?s'"
    using d by (simp add: same_outside_def fold_flip_obs del: fold_simps)
  ultimately show ?thesis
    using run False sz hd by (simp add: list_reverse_def fold_flip_obs del: fold_simps)
qed

section \<open>Facts about unique\<close>

lemma uniq_adj_cong:
  "(\<And>a b. a \<in> set xs \<Longrightarrow> b \<in> set xs \<Longrightarrow> E a b = E' a b) \<Longrightarrow> uniq_adj E xs = uniq_adj E' xs"
proof (induction E xs rule: uniq_adj.induct)
  case (1 eq x y r)
  then show ?case by auto
qed auto

lemma set_uniq_adj: "set (uniq_adj E xs) \<subseteq> set xs"
  by (induction E xs rule: uniq_adj.induct) auto

lemma uniq_adj_hd: "uniq_adj E (x # r) = x # tl (uniq_adj E (x # r))"
  by (induction E "x # r" arbitrary: r rule: uniq_adj.induct) auto

lemma map_uniq_adj: "map f (uniq_adj (\<lambda>a b. f a = f b) xs) = remdups_adj (map f xs)"
  by (induction "\<lambda>a b. f a = f b" xs rule: uniq_adj.induct) auto

lemma unique_loop_run:
  assumes "is_list s this h (ys @ c # rest)"
    and "\<And>a. a \<in> set (c # rest) \<Longrightarrow> deref_val s (Some a) = Some (vf a)"
  shows "\<exists>s'. unique_loop eq this (Some c) s = Some s' \<and>
     is_list s' this h (ys @ uniq_adj (\<lambda>a b. eq (vf a) (vf b)) (c # rest)) \<and>
     (\<forall>a. alloc s' a \<longrightarrow> alloc s a \<and> get_val s' (Some a) = get_val s (Some a)) \<and>
     same_outside (set (h # ys @ c # rest)) this s s' \<and> brk s' = brk s"
  using assms
proof (induction rest arbitrary: s ys c rule: length_induct)
  case (1 rest)
  note l = "1.prems"(1)
  have hd: "get_head s this = Some h" and d: "distinct (h # ys @ c # rest)"
    using l by (simp_all add: is_list_def)
  have ch: "c \<noteq> h" using d by auto
  have lk: "links s ((h # ys) @ c # (rest @ [h]))" using l by (simp add: is_list_def)
  then have nx: "get_next s (Some c) = Some (Some (hd (rest @ [h])))"
    by (simp add: links_append links_Cons)
  have vc: "deref_val s (Some c) = Some (vf c)" using "1.prems"(2) by simp
  show ?case
  proof (cases rest)
    case Nil
    then show ?thesis
      using l hd ch nx by (subst unique_loop.simps) (simp add: same_outside_refl)
  next
    case (Cons x r)
    have xh: "x \<noteq> h" using d Cons by auto
    have nx': "get_next s (Some c) = Some (Some x)" using nx Cons by simp
    have vx: "deref_val s (Some x) = Some (vf x)" using "1.prems"(2) Cons by simp
    show ?thesis
    proof (cases "eq (vf c) (vf x)")
      case True
      have l0: "is_list s this h ((ys @ [c]) @ x # r)" using l Cons by simp
      obtain s1 where e: "erase_node this (Some x) s = Some (Some x, s1)"
        and l1: "is_list s1 this h ((ys @ [c]) @ r)" and a1: "alloc s1 x"
        and al: "\<forall>a. a \<noteq> x \<longrightarrow> alloc s1 a = alloc s a"
        and v1: "\<forall>a. get_val s1 (Some a) = get_val s (Some a)"
        and f1: "same_outside (set (h # (ys @ [c]) @ x # r)) this s s1" and b1: "brk s1 = brk s"
        using erase_node_list[OF l0] by blast
      let ?s2 = "del x s1"
      have xn: "x \<notin> set (h # ys @ c # r)" using d Cons by auto
      have l2: "is_list ?s2 this h (ys @ c # r)"
        by (rule is_list_frame[OF l1[simplified]]) (use xn in auto)
      have v2: "deref_val ?s2 (Some a) = Some (vf a)" if "a \<in> set (c # r)" for a
        using that xn v1 "1.prems"(2)[of a] Cons by (auto simp: deref_val_def)
      have "length r < length rest" using Cons by simp
      then obtain s' where u: "unique_loop eq this (Some c) ?s2 = Some s'"
        and l': "is_list s' this h (ys @ uniq_adj (\<lambda>a b. eq (vf a) (vf b)) (c # r))"
        and al': "\<forall>a. alloc s' a \<longrightarrow> alloc ?s2 a \<and> get_val s' (Some a) = get_val ?s2 (Some a)"
        and f': "same_outside (set (h # ys @ c # r)) this ?s2 s'" and b': "brk s' = brk ?s2"
        using "1.IH"[rule_format, of r ?s2 ys c] l2 v2 by blast
      have f2: "same_outside (set (h # ys @ c # rest)) this s ?s2"
        using f1 Cons by (auto simp: same_outside_def)
      have f: "same_outside (set (h # ys @ c # rest)) this s s'"
        by (rule same_outside_trans[OF f2 f']) (use Cons in auto)
      have al2: "\<forall>a. alloc s' a \<longrightarrow> alloc s a \<and> get_val s' (Some a) = get_val s (Some a)"
        using al' al v1 by auto
      have "unique_loop eq this (Some c) s = Some s'"
        using hd ch nx' xh vc vx True e a1 u by (subst unique_loop.simps) simp
      then show ?thesis using l' al2 f b' b1 True Cons by simp
    next
      case False
      have l0: "is_list s this h ((ys @ [c]) @ x # r)" using l Cons by simp
      have v0: "deref_val s (Some a) = Some (vf a)" if "a \<in> set (x # r)" for a
        using that "1.prems"(2)[of a] Cons by auto
      have "length r < length rest" using Cons by simp
      then obtain s' where u: "unique_loop eq this (Some x) s = Some s'"
        and l': "is_list s' this h ((ys @ [c]) @ uniq_adj (\<lambda>a b. eq (vf a) (vf b)) (x # r))"
        and al': "\<forall>a. alloc s' a \<longrightarrow> alloc s a \<and> get_val s' (Some a) = get_val s (Some a)"
        and f': "same_outside (set (h # (ys @ [c]) @ x # r)) this s s'" and b': "brk s' = brk s"
        using "1.IH"[rule_format, of r s "ys @ [c]" x] l0 v0 by blast
      have "unique_loop eq this (Some c) s = Some s'"
        using hd ch nx' xh vc vx False u by (subst unique_loop.simps) simp
      then show ?thesis using l' al' f' b' False Cons by simp
    qed
  qed
qed

lemma list_unique_list:
  assumes "is_list s this h xs"
  shows "\<exists>s'. list_unique eq this s = Some s' \<and>
     is_list s' this h (uniq_adj (\<lambda>a b. eq (value_at s a) (value_at s b)) xs) \<and>
     (\<forall>a. alloc s' a \<longrightarrow> alloc s a \<and> get_val s' (Some a) = get_val s (Some a)) \<and>
     same_outside (set (h # xs)) this s s' \<and> brk s' = brk s"
proof (cases xs)
  case Nil
  then show ?thesis using assms by (simp add: list_unique_def is_list_def same_outside_refl)
next
  case (Cons c rest)
  show ?thesis
  proof (cases rest)
    case Nil
    then show ?thesis using assms Cons by (simp add: list_unique_def is_list_def same_outside_refl)
  next
    case (Cons x r)
    have l: "is_list s this h ([] @ c # rest)" using assms \<open>xs = c # rest\<close> by simp
    have v: "deref_val s (Some a) = Some (value_at s a)" if "a \<in> set (c # rest)" for a
      using that assms \<open>xs = c # rest\<close> by (auto simp: is_list_def list_all_iff value_at_def)
    have sz: "\<not> get_sz s this \<le> 1" and hd: "get_head s this = Some h"
      using assms Cons \<open>xs = c # rest\<close> by (simp_all add: is_list_def)
    show ?thesis
      using unique_loop_run[OF l v, of eq] sz hd is_list_first_next[OF assms] \<open>xs = c # rest\<close>
      by (simp add: list_unique_def)
  qed
qed

section \<open>Facts about the example stores\<close>

lemmas ex_defs = add_ring_def empty_store_def ring_def get_head_def get_sz_def get_val_def
  get_next_def get_prev_def get_node_def deref_val_def

lemma ex123_list: "is_list ex123 0 0 [1, 2, 3]"
  by (simp add: is_list_def ex123_def ex_defs)

lemma ex123_elems: "elems ex123 [1, 2, 3] = [10, 20, 30]"
  by (simp add: elems_def value_at_def ex123_def ex_defs)

lemma ex_runs_list: "is_list ex_runs 0 0 [11, 12, 13, 14, 15, 16, 17]"
  by (simp add: is_list_def ex_runs_def ex_defs)

lemma ex_runs_values:
  "value_at ex_runs 11 = 1" "value_at ex_runs 12 = 1" "value_at ex_runs 13 = 2"
  "value_at ex_runs 14 = 2" "value_at ex_runs 15 = 2" "value_at ex_runs 16 = 3"
  "value_at ex_runs 17 = 1"
  by (simp_all add: value_at_def ex_runs_def ex_defs)

lemma ex_merge_lists:
  "is_list ex_merge 5 10 [11, 12, 13, 14]" "is_list ex_merge 6 20 [21, 22, 23]"
  by (simp_all add: is_list_def ex_merge_def ex_defs)

lemma ex_merge_values:
  "value_at ex_merge 11 = 1" "value_at ex_merge 12 = 3" "value_at ex_merge 13 = 3"
  "value_at ex_merge 14 = 5" "value_at ex_merge 21 = 2" "value_at ex_merge 22 = 3"
  "value_at ex_merge 23 = 4"
  by (simp_all add: value_at_def ex_merge_def ex_defs)

lemma swo_int: "strict_weak_order ((<) :: int \<Rightarrow> int \<Rightarrow> bool)"
  by (auto simp: strict_weak_order_def)

lemma ex_stale_lists:
  "is_list ex_stale 5 10 [11, 21]" "is_list ex_stale 6 20 [22]"
  by (simp_all add: is_list_def ex_stale_def ex_defs)

lemma ex_stale_obs:
  "get_sz ex_stale 6 = 1" "get_sz ex_stale 5 = 2"
  "get_head ex_stale 6 = Some 20" "get_head ex_stale 5 = Some 10"
  "get_next ex_stale (Some 21) = Some (Some 10)" "get_prev ex_stale (Some 21) = Some (Some 11)"
  "get_next ex_stale (Some 20) = Some (Some 22)" "get_next ex_stale (Some 22) = Some (Some 20)"
  "get_next ex_stale (Some 10) = Some (Some 11)" "get_next ex_stale (Some 11) = Some (Some 21)"
  "alloc ex_stale 10" "alloc ex_stale 11" "alloc ex_stale 21" "alloc ex_stale 20" "alloc ex_stale 22"
  "brk ex_stale = 23"
  by (simp_all add: ex_stale_def ex_defs alloc_def)

lemma ex_stale_erase:
  "list_erase 6 ex_stale_it ex_stale =
     Some (Inr \<lparr>owner = Some 6, ptr = Some 10\<rparr>,
       del 21 (set_sz 6 0 (upd_prev 21 None (upd_next 21 None
         (upd_prev 10 (Some 11) (upd_next 11 (Some 10) ex_stale))))))"
  by (simp add: list_erase_def ex_stale_it_def ex_stale_obs
      erase_node_comp[of ex_stale 21 11 10 6])

section \<open>Facts about merge\<close>

lemma quiet_refl: "quiet s s"
  by (simp add: quiet_def)

lemma quiet_trans: "quiet s s' \<Longrightarrow> quiet s' s'' \<Longrightarrow> quiet s s''"
  by (simp add: quiet_def)

lemma quiet_deref: "quiet s s' \<Longrightarrow> deref_val s' p = deref_val s p"
  by (simp add: quiet_def deref_val_def)

lemma quiet_splice: "quiet s (splice x t s)"
  by (simp add: quiet_def splice_def)

lemma splice_obs [simp]:
  "get_next (splice x t s) (Some b) =
     (if b = t then map_option (\<lambda>_. Some x) (get_next s (Some t)) else get_next s (Some b))"
  "get_prev (splice x t s) (Some b) =
     (if b = x then map_option (\<lambda>_. Some t) (get_prev s (Some x)) else get_prev s (Some b))"
  "get_val (splice x t s) p = get_val s p"
  "deref_val (splice x t s) p = deref_val s p"
  "get_head (splice x t s) l = get_head s l"
  "get_sz (splice x t s) l = get_sz s l"
  "brk (splice x t s) = brk s"
  "alloc (splice x t s) b = alloc s b"
  by (simp_all add: splice_def)

lemma splice_links:
  assumes "links s (h # zs)" and "distinct (h # zs)" and "x \<notin> set (h # zs)" and "alloc s x"
    and "alloc s (last (h # zs))"
  shows "links (splice x (last (h # zs)) s) (h # zs @ [x])"
proof -
  let ?t = "last (h # zs)"
  have tb: "?t \<notin> set (butlast (h # zs))"
    using distinct_last_butlast[OF assms(2)] by simp
  have l: "links (splice x ?t s) (h # zs)"
    by (rule links_frame[OF assms(1)]) (use tb assms(3) in \<open>auto dest: in_set_tlD\<close>)
  obtain n p where "get_next s (Some ?t) = Some n" "get_prev s (Some x) = Some p"
    using get_Some_alloc(1)[OF assms(5)] get_Some_alloc(2)[OF assms(4)] by blast
  then have "links (splice x ?t s) ((h # zs) @ [x])"
    using l assms(3) unfolding links_append by auto
  then show ?thesis by simp
qed

lemma splice_npath:
  assumes "npath s rs" and "t \<notin> set (butlast rs)"
  shows "npath (splice x t s) rs"
  by (rule npath_frame[OF assms(1)]) (use assms(2) in auto)

lemma npath_alloc:
  assumes "npath s (rs @ [h])" and "a \<in> set rs"
  shows "alloc s a"
  using assms
proof (induction rs)
  case Nil
  then show ?case by simp
next
  case (Cons r rs)
  have "get_next s (Some r) = Some (Some (hd (rs @ [h])))"
    using Cons.prems(1) by (simp add: npath_Cons)
  then have "alloc s r" by (rule allocI)
  moreover have "npath s (rs @ [h])" using Cons.prems(1) by (simp add: npath_Cons)
  ultimately show ?case using Cons by auto
qed

lemma merge_rest_run:
  assumes "links s (h # zs)" and "npath s (rs @ [hx])" and "distinct (h # zs @ rs)"
    and "hx \<notin> set rs" and "get_head s lst = Some hx" and "alloc s (last (h # zs))"
  shows "\<exists>s'. merge_rest lst (Some (hd (rs @ [hx]))) (Some (last (h # zs))) s =
            Some (Some (last (h # zs @ rs)), s') \<and>
          links s' (h # zs @ rs) \<and> quiet s s' \<and>
          (\<forall>a. a \<notin> set (h # zs @ rs) \<longrightarrow> get_next s' (Some a) = get_next s (Some a)) \<and>
          (\<forall>a. a \<notin> set rs \<longrightarrow> get_prev s' (Some a) = get_prev s (Some a))"
  using assms
proof (induction rs arbitrary: s zs)
  case Nil
  then show ?case by (subst merge_rest.simps) (simp add: quiet_refl)
next
  case (Cons r rs)
  let ?t = "last (h # zs)"
  let ?s1 = "splice r ?t s"
  have rh: "r \<noteq> hx" using Cons.prems(4) by simp
  have nx: "get_next s (Some r) = Some (Some (hd (rs @ [hx])))"
    using Cons.prems(2) by (simp add: npath_Cons)
  have ar: "alloc s r" using nx by (rule allocI)
  have tin: "?t \<in> set (h # zs)" by (rule last_in_set) simp
  have l1: "links ?s1 (h # (zs @ [r]))"
    using splice_links[OF Cons.prems(1) _ _ ar Cons.prems(6)] Cons.prems(3) by simp
  have n1: "npath ?s1 (rs @ [hx])"
  proof (rule splice_npath)
    show "npath s (rs @ [hx])" using Cons.prems(2) by (simp add: npath_Cons)
    show "?t \<notin> set (butlast (rs @ [hx]))" using tin Cons.prems(3) by (auto simp: butlast_append)
  qed
  have d1: "distinct (h # (zs @ [r]) @ rs)" using Cons.prems(3) by auto
  have a1: "alloc ?s1 (last (h # zs @ [r]))" using ar by simp
  obtain s' where m: "merge_rest lst (Some (hd (rs @ [hx]))) (Some (last (h # zs @ [r]))) ?s1 =
            Some (Some (last (h # (zs @ [r]) @ rs)), s')"
    and l': "links s' (h # (zs @ [r]) @ rs)" and q': "quiet ?s1 s'"
    and fn: "\<forall>a. a \<notin> set (h # (zs @ [r]) @ rs) \<longrightarrow> get_next s' (Some a) = get_next ?s1 (Some a)"
    and fp: "\<forall>a. a \<notin> set rs \<longrightarrow> get_prev s' (Some a) = get_prev ?s1 (Some a)"
    using Cons.IH[OF l1 n1 d1 _ _ a1] Cons.prems(4,5) by auto
  have q: "quiet s s'" by (rule quiet_trans[OF quiet_splice q'])
  have step: "merge_rest lst (Some r) (Some ?t) s =
     merge_rest lst (Some (hd (rs @ [hx]))) (Some r) ?s1"
    using rh Cons.prems(5,6) nx ar by (subst merge_rest.simps) (simp add: splice_def)
  have fn': "\<forall>a. a \<notin> set (h # zs @ r # rs) \<longrightarrow> get_next s' (Some a) = get_next s (Some a)"
    using fn tin by auto
  have fp': "\<forall>a. a \<notin> set (r # rs) \<longrightarrow> get_prev s' (Some a) = get_prev s (Some a)"
    using fp by auto
  show ?case using step m l' q fn' fp' by simp
qed

lemma merge_by_Nil2 [simp]: "merge_by LT xs [] = xs"
  by (cases xs) auto

lemma length_merge_by: "length (merge_by LT xs ys) = length xs + length ys"
  by (induction LT xs ys rule: merge_by.induct) auto

lemma set_merge_by: "set (merge_by LT xs ys) = set xs \<union> set ys"
  by (induction LT xs ys rule: merge_by.induct) auto

lemma mset_merge_by: "mset (merge_by LT xs ys) = mset xs + mset ys"
  by (induction LT xs ys rule: merge_by.induct) auto

lemma merge_loop_run:
  assumes "get_head s this = Some h1" and "get_head s other = Some h2"
    and "links s (h1 # zs)" and "npath s (as @ [h1])" and "npath s (bs @ [h2])"
    and "distinct (h1 # h2 # zs @ as @ bs)"
    and "\<And>a. a \<in> set (as @ bs) \<Longrightarrow> deref_val s (Some a) = Some (vf a)"
    and "alloc s (last (h1 # zs))"
  shows "\<exists>zs' as' bs' s'.
      merge_loop lt this other (Some (hd (as @ [h1]))) (Some (hd (bs @ [h2]))) (Some (last (h1 # zs))) s =
        Some (Some (hd (as' @ [h1])), Some (hd (bs' @ [h2])), Some (last (h1 # zs')), s') \<and>
      zs' @ as' @ bs' = zs @ merge_by (\<lambda>p q. lt (vf p) (vf q)) as bs \<and>
      (as' = [] \<or> bs' = []) \<and>
      distinct (h1 # h2 # zs' @ as' @ bs') \<and>
      links s' (h1 # zs') \<and> npath s' (as' @ [h1]) \<and> npath s' (bs' @ [h2]) \<and>
      quiet s s' \<and> alloc s' (last (h1 # zs'))"
  using assms
proof (induction "length as + length bs" arbitrary: as bs zs s rule: less_induct)
  case less
  let ?LT = "\<lambda>p q. lt (vf p) (vf q)"
  let ?t = "last (h1 # zs)"
  note h1 = less.prems(1) and h2 = less.prems(2) and L = less.prems(3) and NA = less.prems(4)
    and NB = less.prems(5) and D = less.prems(6) and V = less.prems(7) and AT = less.prems(8)
  have tin: "?t \<in> set (h1 # zs)" by (rule last_in_set) simp
  show ?case
  proof (cases as)
    case Nil
    have "merge_loop lt this other (Some (hd (as @ [h1]))) (Some (hd (bs @ [h2]))) (Some ?t) s =
        Some (Some (hd ([] @ [h1])), Some (hd (bs @ [h2])), Some ?t, s)"
      using Nil h1 by (subst merge_loop.simps) simp
    then show ?thesis
      using Nil L NA NB D AT
      by (intro exI[of _ zs] exI[of _ "[]"] exI[of _ bs] exI[of _ s]) (simp add: quiet_refl)
  next
    case (Cons x as0)
    note A = Cons
    show ?thesis
    proof (cases bs)
      case Nil
      have "merge_loop lt this other (Some (hd (as @ [h1]))) (Some (hd (bs @ [h2]))) (Some ?t) s =
          Some (Some (hd (as @ [h1])), Some (hd ([] @ [h2])), Some ?t, s)"
        using Nil h2 by (subst merge_loop.simps) simp
      then show ?thesis
        using Nil L NA NB D AT
        by (intro exI[of _ zs] exI[of _ as] exI[of _ "[]"] exI[of _ s]) (simp add: quiet_refl)
    next
      case (Cons y bs0)
      note B = Cons
      have xh: "x \<noteq> h1" "y \<noteq> h2" using D A B by auto
      have vx: "deref_val s (Some x) = Some (vf x)" and vy: "deref_val s (Some y) = Some (vf y)"
        using V[of x] V[of y] A B by auto
      have ax: "alloc s x" and ay: "alloc s y" using vx vy by (auto intro: allocI)
      have nx: "get_next s (Some x) = Some (Some (hd (as0 @ [h1])))"
        and ny: "get_next s (Some y) = Some (Some (hd (bs0 @ [h2])))"
        using NA NB A B by (simp_all add: npath_Cons)
      show ?thesis
      proof (cases "lt (vf y) (vf x)")
        case True
        let ?s1 = "splice y ?t s"
        have l1: "links ?s1 (h1 # (zs @ [y]))"
          using splice_links[OF L _ _ ay AT] D B by simp
        have na1: "npath ?s1 (as @ [h1])"
          by (rule splice_npath[OF NA]) (use tin D in \<open>auto simp: butlast_append\<close>)
        have nb1: "npath ?s1 (bs0 @ [h2])"
        proof (rule splice_npath)
          show "npath s (bs0 @ [h2])" using NB B by (simp add: npath_Cons)
          show "?t \<notin> set (butlast (bs0 @ [h2]))" using tin D B by (auto simp: butlast_append)
        qed
        have d1: "distinct (h1 # h2 # (zs @ [y]) @ as @ bs0)" using D B by auto
        have v1: "deref_val ?s1 (Some a) = Some (vf a)" if "a \<in> set (as @ bs0)" for a
          using that V[of a] B by auto
        have "length as + length bs0 < length as + length bs" using B by simp
        then have "\<exists>zs' as' bs' s'.
            merge_loop lt this other (Some (hd (as @ [h1]))) (Some (hd (bs0 @ [h2])))
                (Some (last (h1 # (zs @ [y])))) ?s1 =
              Some (Some (hd (as' @ [h1])), Some (hd (bs' @ [h2])), Some (last (h1 # zs')), s') \<and>
            zs' @ as' @ bs' = (zs @ [y]) @ merge_by ?LT as bs0 \<and>
            (as' = [] \<or> bs' = []) \<and>
            distinct (h1 # h2 # zs' @ as' @ bs') \<and>
            links s' (h1 # zs') \<and> npath s' (as' @ [h1]) \<and> npath s' (bs' @ [h2]) \<and>
            quiet ?s1 s' \<and> alloc s' (last (h1 # zs'))"
          by (rule less.hyps[OF _ _ _ l1 na1 nb1 d1 v1]) (use h1 h2 ay in simp_all)
        then obtain zs' as' bs' s' where
          m: "merge_loop lt this other (Some (hd (as @ [h1]))) (Some (hd (bs0 @ [h2])))
                (Some (last (h1 # (zs @ [y])))) ?s1 =
              Some (Some (hd (as' @ [h1])), Some (hd (bs' @ [h2])), Some (last (h1 # zs')), s')"
          and e: "zs' @ as' @ bs' = (zs @ [y]) @ merge_by ?LT as bs0"
          and r: "as' = [] \<or> bs' = []" "distinct (h1 # h2 # zs' @ as' @ bs')"
             "links s' (h1 # zs')" "npath s' (as' @ [h1])" "npath s' (bs' @ [h2])"
             "alloc s' (last (h1 # zs'))"
          and q: "quiet ?s1 s'"
          by blast
        have step: "merge_loop lt this other (Some (hd (as @ [h1]))) (Some (hd (bs @ [h2]))) (Some ?t) s =
           merge_loop lt this other (Some (hd (as @ [h1]))) (Some (hd (bs0 @ [h2]))) (Some y) ?s1"
          using A B xh h1 h2 vx vy True ny ay AT
          by (subst merge_loop.simps) (simp add: splice_def)
        have e': "zs' @ as' @ bs' = zs @ merge_by ?LT as bs"
          using e True A B by simp
        have q': "quiet s s'" by (rule quiet_trans[OF quiet_splice q])
        show ?thesis
          using step m e' r q' by (intro exI[of _ zs'] exI[of _ as'] exI[of _ bs'] exI[of _ s']) (simp del: merge_by.simps)
      next
        case False
        let ?s1 = "splice x ?t s"
        have l1: "links ?s1 (h1 # (zs @ [x]))"
          using splice_links[OF L _ _ ax AT] D A by simp
        have na1: "npath ?s1 (as0 @ [h1])"
        proof (rule splice_npath)
          show "npath s (as0 @ [h1])" using NA A by (simp add: npath_Cons)
          show "?t \<notin> set (butlast (as0 @ [h1]))" using tin D A by (auto simp: butlast_append)
        qed
        have nb1: "npath ?s1 (bs @ [h2])"
          by (rule splice_npath[OF NB]) (use tin D in \<open>auto simp: butlast_append\<close>)
        have d1: "distinct (h1 # h2 # (zs @ [x]) @ as0 @ bs)" using D A by auto
        have v1: "deref_val ?s1 (Some a) = Some (vf a)" if "a \<in> set (as0 @ bs)" for a
          using that V[of a] A by auto
        have "length as0 + length bs < length as + length bs" using A by simp
        then have "\<exists>zs' as' bs' s'.
            merge_loop lt this other (Some (hd (as0 @ [h1]))) (Some (hd (bs @ [h2])))
                (Some (last (h1 # (zs @ [x])))) ?s1 =
              Some (Some (hd (as' @ [h1])), Some (hd (bs' @ [h2])), Some (last (h1 # zs')), s') \<and>
            zs' @ as' @ bs' = (zs @ [x]) @ merge_by ?LT as0 bs \<and>
            (as' = [] \<or> bs' = []) \<and>
            distinct (h1 # h2 # zs' @ as' @ bs') \<and>
            links s' (h1 # zs') \<and> npath s' (as' @ [h1]) \<and> npath s' (bs' @ [h2]) \<and>
            quiet ?s1 s' \<and> alloc s' (last (h1 # zs'))"
          by (rule less.hyps[OF _ _ _ l1 na1 nb1 d1 v1]) (use h1 h2 ax in simp_all)
        then obtain zs' as' bs' s' where
          m: "merge_loop lt this other (Some (hd (as0 @ [h1]))) (Some (hd (bs @ [h2])))
                (Some (last (h1 # (zs @ [x])))) ?s1 =
              Some (Some (hd (as' @ [h1])), Some (hd (bs' @ [h2])), Some (last (h1 # zs')), s')"
          and e: "zs' @ as' @ bs' = (zs @ [x]) @ merge_by ?LT as0 bs"
          and r: "as' = [] \<or> bs' = []" "distinct (h1 # h2 # zs' @ as' @ bs')"
             "links s' (h1 # zs')" "npath s' (as' @ [h1])" "npath s' (bs' @ [h2])"
             "alloc s' (last (h1 # zs'))"
          and q: "quiet ?s1 s'"
          by blast
        have step: "merge_loop lt this other (Some (hd (as @ [h1]))) (Some (hd (bs @ [h2]))) (Some ?t) s =
           merge_loop lt this other (Some (hd (as0 @ [h1]))) (Some (hd (bs @ [h2]))) (Some x) ?s1"
          using A B xh h1 h2 vx vy False nx ax AT
          by (subst merge_loop.simps) (simp add: splice_def)
        have e': "zs' @ as' @ bs' = zs @ merge_by ?LT as bs"
          using e False A B by simp
        have q': "quiet s s'" by (rule quiet_trans[OF quiet_splice q])
        show ?thesis
          using step m e' r q' by (intro exI[of _ zs'] exI[of _ as'] exI[of _ bs'] exI[of _ s']) (simp del: merge_by.simps)
      qed
    qed
  qed
qed

lemma list_merge_list:
  assumes L1: "is_list s this h1 xs" and L2: "is_list s other h2 ys" and ne: "this \<noteq> other"
    and dj: "set (h1 # xs) \<inter> set (h2 # ys) = {}" and yne: "ys \<noteq> []"
  shows "\<exists>s'. list_merge lt this other s = Some s' \<and>
     is_list s' this h1 (merge_by (\<lambda>p q. lt (value_at s p) (value_at s q)) xs ys) \<and>
     is_list s' other h2 [] \<and>
     (\<forall>p. get_val s' p = get_val s p) \<and> brk s' = brk s \<and> (\<forall>a. alloc s' a = alloc s a)"
proof -
  let ?LT = "\<lambda>p q. lt (value_at s p) (value_at s q)"
  have hd1: "get_head s this = Some h1" and sz1: "get_sz s this = length xs"
    and d1: "distinct (h1 # xs)" and vh1: "get_val s (Some h1) = Some None"
    and vs1: "list_all (\<lambda>x. deref_val s (Some x) \<noteq> None) xs" and l1: "links s (h1 # xs @ [h1])"
    using L1 by (simp_all add: is_list_def)
  have hd2: "get_head s other = Some h2" and sz2: "get_sz s other = length ys"
    and d2: "distinct (h2 # ys)" and vh2: "get_val s (Some h2) = Some None"
    and vs2: "list_all (\<lambda>x. deref_val s (Some x) \<noteq> None) ys" and l2: "links s (h2 # ys @ [h2])"
    using L2 by (simp_all add: is_list_def)
  have a1: "alloc s h1" and a2: "alloc s h2"
    using is_list_alloc[OF L1, of h1] is_list_alloc[OF L2, of h2] by simp_all
  have n1: "get_next s (Some h1) = Some (Some (hd (xs @ [h1])))"
    and n2: "get_next s (Some h2) = Some (Some (hd (ys @ [h2])))"
    using is_list_first_next[OF L1] is_list_first_next[OF L2] by simp_all
  define s0 where "s0 = upd_next h1 (Some h1) (upd_prev h1 (Some h1) s)"
  have q0: "quiet s s0" by (simp add: quiet_def s0_def)
  have D: "distinct (h1 # h2 # [] @ xs @ ys)" using d1 d2 dj by auto
  have np1: "npath s0 (xs @ [h1])"
  proof (rule npath_frame)
    show "npath s (xs @ [h1])" using links_npath[OF l1] by (simp add: npath_Cons)
    show "get_next s0 (Some a) = get_next s (Some a)" if "a \<in> set (butlast (xs @ [h1]))" for a
      using that d1 by (auto simp: s0_def butlast_append)
  qed
  have np2: "npath s0 (ys @ [h2])"
  proof (rule npath_frame)
    show "npath s (ys @ [h2])" using links_npath[OF l2] by (simp add: npath_Cons)
    show "get_next s0 (Some a) = get_next s (Some a)" if "a \<in> set (butlast (ys @ [h2]))" for a
      using that dj by (auto simp: s0_def butlast_append)
  qed
  have V: "deref_val s0 (Some a) = Some (value_at s a)" if "a \<in> set (xs @ ys)" for a
    using that vs1 vs2 by (auto simp: s0_def list_all_iff value_at_def)
  have "\<exists>zs' as' bs' s'.
      merge_loop lt this other (Some (hd (xs @ [h1]))) (Some (hd (ys @ [h2]))) (Some (last (h1 # []))) s0 =
        Some (Some (hd (as' @ [h1])), Some (hd (bs' @ [h2])), Some (last (h1 # zs')), s') \<and>
      zs' @ as' @ bs' = [] @ merge_by ?LT xs ys \<and>
      (as' = [] \<or> bs' = []) \<and>
      distinct (h1 # h2 # zs' @ as' @ bs') \<and>
      links s' (h1 # zs') \<and> npath s' (as' @ [h1]) \<and> npath s' (bs' @ [h2]) \<and>
      quiet s0 s' \<and> alloc s' (last (h1 # zs'))"
    by (rule merge_loop_run[OF _ _ _ np1 np2 D V]) (use hd1 hd2 a1 in \<open>simp_all add: s0_def\<close>)
  then obtain zs as bs sA where
    m0: "merge_loop lt this other (Some (hd (xs @ [h1]))) (Some (hd (ys @ [h2]))) (Some (last (h1 # []))) s0 =
        Some (Some (hd (as @ [h1])), Some (hd (bs @ [h2])), Some (last (h1 # zs)), sA)"
    and e0: "zs @ as @ bs = [] @ merge_by ?LT xs ys"
    and dA: "distinct (h1 # h2 # zs @ as @ bs)"
    and lA: "links sA (h1 # zs)" and npA: "npath sA (as @ [h1])" and nqA: "npath sA (bs @ [h2])"
    and qA: "quiet s0 sA" and aA: "alloc sA (last (h1 # zs))"
    by blast
  have m: "merge_loop lt this other (Some (hd (xs @ [h1]))) (Some (hd (ys @ [h2]))) (Some h1) s0 =
        Some (Some (hd (as @ [h1])), Some (hd (bs @ [h2])), Some (last (h1 # zs)), sA)"
    using m0 by simp
  have e: "zs @ as @ bs = merge_by ?LT xs ys" using e0 by simp
  have hA: "get_head sA this = Some h1" "get_head sA other = Some h2"
    using qA q0 hd1 hd2 by (simp_all add: quiet_def)
  have "\<exists>s'. merge_rest this (Some (hd (as @ [h1]))) (Some (last (h1 # zs))) sA =
            Some (Some (last (h1 # zs @ as)), s') \<and>
          links s' (h1 # zs @ as) \<and> quiet sA s' \<and>
          (\<forall>a. a \<notin> set (h1 # zs @ as) \<longrightarrow> get_next s' (Some a) = get_next sA (Some a)) \<and>
          (\<forall>a. a \<notin> set as \<longrightarrow> get_prev s' (Some a) = get_prev sA (Some a))"
    by (rule merge_rest_run[OF lA npA _ _ hA(1) aA]) (use dA in auto)
  then obtain sB where
    mB: "merge_rest this (Some (hd (as @ [h1]))) (Some (last (h1 # zs))) sA =
            Some (Some (last (h1 # zs @ as)), sB)"
    and lB: "links sB (h1 # zs @ as)" and qB: "quiet sA sB"
    and fB: "\<forall>a. a \<notin> set (h1 # zs @ as) \<longrightarrow> get_next sB (Some a) = get_next sA (Some a)"
    by blast
  have hB: "get_head sB this = Some h1" "get_head sB other = Some h2"
    using qB hA by (simp_all add: quiet_def)
  have nqB: "npath sB (bs @ [h2])"
    by (rule npath_frame[OF nqA]) (use fB dA in \<open>auto simp: butlast_append\<close>)
  have aB: "alloc sB (last (h1 # zs @ as))"
  proof -
    have "last (h1 # zs @ as) \<in> set (h1 # zs @ as)" by (rule last_in_set) simp
    then have "last (h1 # zs @ as) = h1 \<or> last (h1 # zs @ as) \<in> set (zs @ as)" by auto
    moreover have "alloc s a" if "a \<in> set (zs @ as)" for a
    proof -
      have "a \<in> set (merge_by ?LT xs ys)" using that e[symmetric] by auto
      then have "a \<in> set (h1 # xs) \<or> a \<in> set (h2 # ys)" by (auto simp: set_merge_by)
      then show ?thesis using is_list_alloc[OF L1] is_list_alloc[OF L2] by blast
    qed
    ultimately have "alloc s (last (h1 # zs @ as))" using a1 by auto
    then show ?thesis using q0 qA qB by (simp add: quiet_def)
  qed
  have "\<exists>s'. merge_rest other (Some (hd (bs @ [h2]))) (Some (last (h1 # (zs @ as)))) sB =
            Some (Some (last (h1 # (zs @ as) @ bs)), s') \<and>
          links s' (h1 # (zs @ as) @ bs) \<and> quiet sB s' \<and>
          (\<forall>a. a \<notin> set (h1 # (zs @ as) @ bs) \<longrightarrow> get_next s' (Some a) = get_next sB (Some a)) \<and>
          (\<forall>a. a \<notin> set bs \<longrightarrow> get_prev s' (Some a) = get_prev sB (Some a))"
    by (rule merge_rest_run[OF _ nqB _ _ hB(2)]) (use lB dA aB in auto)
  then obtain sC where
    mC0: "merge_rest other (Some (hd (bs @ [h2]))) (Some (last (h1 # (zs @ as)))) sB =
            Some (Some (last (h1 # (zs @ as) @ bs)), sC)"
    and lC0: "links sC (h1 # (zs @ as) @ bs)" and qC: "quiet sB sC"
    by blast
  have mC: "merge_rest other (Some (hd (bs @ [h2]))) (Some (last (h1 # zs @ as))) sB =
            Some (Some (last (h1 # zs @ as @ bs)), sC)"
    using mC0 by simp
  have lC: "links sC (h1 # zs @ as @ bs)" using lC0 by simp
  define Z where "Z = merge_by ?LT xs ys"
  have Ze: "zs @ as @ bs = Z" using e by (simp add: Z_def)
  have lZ: "links sC (h1 # Z)" using lC Ze by simp
  have dZ: "distinct (h1 # h2 # Z)" using dA Ze by simp
  have q: "quiet s sC" using q0 qA qB qC by (blast intro: quiet_trans)
  define t where "t = last (h1 # Z)"
  have tin: "t \<in> set (h1 # Z)" unfolding t_def by (rule last_in_set) simp
  have tb: "t \<notin> set (butlast (h1 # Z))"
    unfolding t_def using distinct_last_butlast[of "h1 # Z"] dZ by simp
  have aC: "alloc sC h1" "alloc sC h2" using q a1 a2 by (simp_all add: quiet_def)
  have Zset: "set Z = set xs \<union> set ys" by (simp add: Z_def set_merge_by)
  have at: "alloc sC t"
  proof -
    have "alloc s t" using tin Zset is_list_alloc[OF L1] is_list_alloc[OF L2] by auto
    then show ?thesis using q by (simp add: quiet_def)
  qed
  define sD where "sD = upd_next h2 (Some h2) (upd_prev h2 (Some h2) (upd_prev h1 (Some t) (upd_next t (Some h1) sC)))"
  define sE where "sE = set_sz this (get_sz s0 this + get_sz s0 other) (set_sz other 0 sD)"
  have hC: "get_head sC this = Some h1" "get_head sC other = Some h2"
    using qC hB by (simp_all add: quiet_def)
  define tA where "tA = last (h1 # zs)"
  define tB where "tB = last (h1 # zs @ as)"
  define pa where "pa = hd (as @ [h1])"
  define pb where "pb = hd (bs @ [h2])"
  define px where "px = hd (xs @ [h1])"
  define py where "py = hd (ys @ [h2])"
  have h0: "get_head s0 this = Some h1" "get_head s0 other = Some h2"
    using hd1 hd2 by (simp_all add: s0_def)
  have r1: "merge_loop lt this other (Some px) (Some py) (Some h1) s0 = Some (Some pa, Some pb, Some tA, sA)"
    using m by (simp only: tA_def pa_def pb_def px_def py_def)
  have r2: "merge_rest this (Some pa) (Some tA) sA = Some (Some tB, sB)"
    using mB by (simp only: tA_def tB_def pa_def)
  have r3: "merge_rest other (Some pb) (Some tB) sB = Some (Some t, sC)"
    using mC Ze by (simp only: tB_def t_def pb_def)
  have r0: "get_next s (Some h1) = Some (Some px)" "get_next s (Some h2) = Some (Some py)"
    using n1 n2 by (simp_all only: px_def py_def)
  have run: "list_merge lt this other s = Some sE"
    using ne yne sz2 hd1 hd2 r0 a1 a2 r1 r2 r3 hC aC at h0
    by (simp add: list_merge_def s0_def[symmetric] sD_def sE_def)
  have lD: "links sD (h1 # Z)"
  proof (rule links_frame[OF lZ])
    fix a assume a: "a \<in> set (butlast (h1 # Z))"
    have "a \<in> set (h1 # Z)" by (rule in_set_butlastD[OF a])
    moreover have "a \<noteq> t" using a tb by blast
    ultimately show "get_next sD (Some a) = get_next sC (Some a)"
      using dZ by (auto simp: sD_def)
  next
    fix a assume "a \<in> set (tl (h1 # Z))"
    then show "get_prev sD (Some a) = get_prev sC (Some a)"
      using dZ by (auto simp: sD_def)
  qed
  obtain x1 x2 where g: "get_next sC (Some t) = Some x1" "get_prev sC (Some h1) = Some x2"
    using get_Some_alloc(1)[OF at] get_Some_alloc(2)[OF aC(1)] by blast
  obtain y1 y2 where g2: "get_next sC (Some h2) = Some y1" "get_prev sC (Some h2) = Some y2"
    using get_Some_alloc(1)[OF aC(2)] get_Some_alloc(2)[OF aC(2)] by blast
  have th2: "t \<noteq> h2" using tin dZ by auto
  have "links sD ((h1 # Z) @ [h1])"
    unfolding links_append using lD g th2 dZ by (auto simp: sD_def t_def)
  then have lE: "links sE (h1 # Z @ [h1])"
    by (simp add: sE_def links_frame[where s=sD])
  have l2E: "links sE (h2 # [] @ [h2])"
    using g2 th2 dZ by (simp add: sE_def sD_def)
  have vE: "\<forall>p. get_val sE p = get_val s p" using q by (simp add: sE_def sD_def quiet_def)
  have szE: "get_sz sE this = length Z" "get_sz sE other = 0"
    using ne sz1 sz2 by (simp_all add: sE_def s0_def Z_def length_merge_by)
  have hE: "get_head sE this = Some h1" "get_head sE other = Some h2"
    using hC by (simp_all add: sE_def sD_def)
  have dv: "list_all (\<lambda>x. deref_val sE (Some x) \<noteq> None) Z"
    using vs1 vs2 vE Zset by (auto simp: list_all_iff deref_val_def)
  have i1: "is_list sE this h1 Z"
    using hE szE dZ vE vh1 dv lE by (simp add: is_list_def)
  have i2: "is_list sE other h2 []"
    using hE szE vE vh2 l2E by (simp add: is_list_def)
  have "brk sE = brk s" "\<forall>a. alloc sE a = alloc s a"
    using q by (simp_all add: sE_def sD_def quiet_def)
  then show ?thesis using run i1 i2 vE by (simp add: Z_def)
qed

lemma precedes_Cons:
  "precedes x y (z # zs) \<longleftrightarrow> (if z = x then y \<in> set zs else precedes x y zs)"
  by (simp add: precedes_def)

lemma sorted_merge_by:
  "(\<And>x. \<not> LT x x) \<Longrightarrow> (\<And>x y z. LT x y \<Longrightarrow> LT y z \<Longrightarrow> LT x z)
     \<Longrightarrow> (\<And>x y z. \<not> LT x y \<Longrightarrow> \<not> LT y z \<Longrightarrow> \<not> LT x z)
     \<Longrightarrow> sorted_wrt (\<lambda>a b. \<not> LT b a) xs \<Longrightarrow> sorted_wrt (\<lambda>a b. \<not> LT b a) ys
     \<Longrightarrow> sorted_wrt (\<lambda>a b. \<not> LT b a) (merge_by LT xs ys)"
proof (induction LT xs ys rule: merge_by.induct)
  case (1 lt x xs y ys)
  note ir = "1.prems"(1) and tr = "1.prems"(2) and nt = "1.prems"(3) and sx = "1.prems"(4)
    and sy = "1.prems"(5)
  have sx': "sorted_wrt (\<lambda>a b. \<not> lt b a) xs" "\<forall>z\<in>set xs. \<not> lt z x" using sx by simp_all
  have sy': "sorted_wrt (\<lambda>a b. \<not> lt b a) ys" "\<forall>z\<in>set ys. \<not> lt z y" using sy by simp_all
  show ?case
  proof (cases "lt y x")
    case True
    have a: "\<not> lt z y" if "z \<in> set (x # xs)" for z
    proof
      assume "lt z y"
      then have "lt z x" using True tr by blast
      then show False using that sx'(2) ir[of x] by auto
    qed
    have b: "sorted_wrt (\<lambda>a b. \<not> lt b a) (merge_by lt (x # xs) ys)"
      by (rule "1.IH"(1)[OF True ir tr nt sx sy'(1)])
    have "\<forall>z\<in>set (merge_by lt (x # xs) ys). \<not> lt z y"
      unfolding set_merge_by using a sy'(2) by blast
    then show ?thesis using b True by simp
  next
    case False
    have a: "\<not> lt z x" if "z \<in> set (y # ys)" for z
    proof (cases "z = y")
      case True
      then show ?thesis using False by simp
    next
      case ne: False
      then have "\<not> lt z y" using that sy'(2) by auto
      then show ?thesis using nt[of z y x] False by blast
    qed
    have b: "sorted_wrt (\<lambda>a b. \<not> lt b a) (merge_by lt xs (y # ys))"
      by (rule "1.IH"(2)[OF False ir tr nt sx'(1) sy])
    have "\<forall>z\<in>set (merge_by lt xs (y # ys)). \<not> lt z x"
      unfolding set_merge_by using a sx'(2) by blast
    then show ?thesis using b False by simp
  qed
next
  case (2 lt ys)
  show ?case using "2.prems"(5) by simp
next
  case (3 lt v va)
  show ?case using "3.prems"(4) by simp
qed

lemma stable_merge_by:
  "(\<And>x y z. \<not> LT x y \<Longrightarrow> \<not> LT y z \<Longrightarrow> \<not> LT x z)
     \<Longrightarrow> x \<in> set xs \<Longrightarrow> y \<in> set ys \<Longrightarrow> sorted_wrt (\<lambda>a b. \<not> LT b a) xs \<Longrightarrow> \<not> LT y x
     \<Longrightarrow> x \<notin> set ys \<Longrightarrow> precedes x y (merge_by LT xs ys)"
proof (induction LT xs ys rule: merge_by.induct)
  case (1 lt x' xs' y' ys')
  note nt = "1.prems"(1) and xin = "1.prems"(2) and yin = "1.prems"(3) and sx = "1.prems"(4)
    and nlt = "1.prems"(5) and xn = "1.prems"(6)
  have sx': "sorted_wrt (\<lambda>a b. \<not> lt b a) xs'" "\<forall>z\<in>set xs'. \<not> lt z x'" using sx by simp_all
  show ?case
  proof (cases "lt y' x'")
    case True
    have "y \<noteq> y'"
    proof
      assume "y = y'"
      then have a: "lt y x'" using True by simp
      have "x = x' \<or> \<not> lt x x'" using xin sx'(2) by auto
      then show False using nlt a nt[of y x x'] by blast
    qed
    then have yin': "y \<in> set ys'" using yin by simp
    have xn': "x \<notin> set ys'" using xn by simp
    have "precedes x y (merge_by lt (x' # xs') ys')"
      by (rule "1.IH"(1)[OF True nt xin yin' sx nlt xn'])
    moreover have "y' \<noteq> x" using xn by auto
    ultimately show ?thesis using True by (simp add: precedes_Cons)
  next
    case False
    show ?thesis
    proof (cases "x = x'")
      case True
      have "y \<in> set (merge_by lt xs' (y' # ys'))" unfolding set_merge_by using yin by blast
      then show ?thesis using False True by (simp add: precedes_Cons)
    next
      case ne: False
      then have xin': "x \<in> set xs'" using xin by simp
      have "precedes x y (merge_by lt xs' (y' # ys'))"
        by (rule "1.IH"(2)[OF False nt xin' yin sx'(1) nlt xn])
      then show ?thesis using False ne by (simp add: precedes_Cons)
    qed
  qed
next
  case (2 lt ys)
  show ?case using "2.prems"(2) by simp
next
  case (3 lt v va)
  show ?case using "3.prems"(3) by simp
qed

section \<open>Facts about the quicksort on the buffer\<close>

lemma rd_Some: "0 \<le> i \<Longrightarrow> i < int (length a) \<Longrightarrow> rd a i = Some (a ! nat i)"
  by (simp add: rd_def)

lemma wr_Some: "0 \<le> i \<Longrightarrow> i < int (length a) \<Longrightarrow> wr a i v = Some (a[nat i := v])"
  by (simp add: wr_def)

lemma int_ok_Some: "- (2 ^ 31) \<le> x \<Longrightarrow> x < 2 ^ 31 \<Longrightarrow> int_ok x = Some x"
  by (simp add: int_ok_def)

lemma scan_up_run:
  assumes "\<forall>x\<in>set a. cmp x pv = Some (LT x pv)" and "0 \<le> i" and "i \<le> k"
    and "k < int (length a)" and "\<not> LT (a ! nat k) pv" and "int (length a) \<le> 2 ^ 30"
  shows "\<exists>i'. scan_up cmp a pv i = Some i' \<and> i \<le> i' \<and> i' \<le> k \<and> \<not> LT (a ! nat i') pv \<and>
           (\<forall>m. i \<le> m \<and> m < i' \<longrightarrow> LT (a ! nat m) pv)"
  using assms(2,3)
proof (induction "nat (k - i)" arbitrary: i)
  case 0
  then have "i = k" by simp
  then have "scan_up cmp a pv i = Some i"
    using assms(1,4,5) "0.prems"(1)
    by (subst scan_up.simps) (simp add: rd_Some)
  then show ?case using \<open>i = k\<close> assms(5) by auto
next
  case (Suc d)
  have r: "rd a i = Some (a ! nat i)" using Suc.prems assms(4) by (simp add: rd_Some)
  have c: "cmp (a ! nat i) pv = Some (LT (a ! nat i) pv)"
    using assms(1,4) Suc.prems by simp
  show ?case
  proof (cases "LT (a ! nat i) pv")
    case False
    have "scan_up cmp a pv i = Some i"
      using r c False by (subst scan_up.simps) simp
    then show ?thesis using False Suc.prems by auto
  next
    case True
    have ok: "int_ok (i + 1) = Some (i + 1)"
      using Suc.prems assms(4,6) by (intro int_ok_Some) auto
    have d: "d = nat (k - (i + 1))" using Suc.hyps(2) by simp
    have "0 \<le> i + 1" "i + 1 \<le> k" using Suc.prems Suc.hyps(2) by linarith+
    then obtain i' where s: "scan_up cmp a pv (i + 1) = Some i'" and b: "i + 1 \<le> i'" "i' \<le> k"
      and st: "\<not> LT (a ! nat i') pv" and al: "\<forall>m. i + 1 \<le> m \<and> m < i' \<longrightarrow> LT (a ! nat m) pv"
      using Suc.hyps(1)[OF d] by blast
    have "scan_up cmp a pv i = Some i'"
      using r c True ok s by (subst scan_up.simps) simp
    moreover have "\<forall>m. i \<le> m \<and> m < i' \<longrightarrow> LT (a ! nat m) pv"
    proof (intro allI impI)
      fix m assume "i \<le> m \<and> m < i'"
      then have "m = i \<or> (i + 1 \<le> m \<and> m < i')" by auto
      then show "LT (a ! nat m) pv" using True al by auto
    qed
    ultimately show ?thesis using b st by auto
  qed
qed

lemma scan_down_run:
  assumes "\<forall>x\<in>set a. cmp pv x = Some (LT pv x)" and "0 \<le> k" and "k \<le> j"
    and "j < int (length a)" and "\<not> LT pv (a ! nat k)" and "int (length a) \<le> 2 ^ 30"
  shows "\<exists>j'. scan_down cmp a pv j = Some j' \<and> k \<le> j' \<and> j' \<le> j \<and> \<not> LT pv (a ! nat j') \<and>
           (\<forall>m. j' < m \<and> m \<le> j \<longrightarrow> LT pv (a ! nat m))"
  using assms(3,4)
proof (induction "nat (j - k)" arbitrary: j)
  case 0
  then have "j = k" by simp
  then have "scan_down cmp a pv j = Some j"
    using assms(1,2,5) "0.prems"
    by (subst scan_down.simps) (simp add: rd_Some)
  then show ?case using \<open>j = k\<close> assms(5) by auto
next
  case (Suc d)
  have r: "rd a j = Some (a ! nat j)" using Suc.prems assms(2) by (simp add: rd_Some)
  have c: "cmp pv (a ! nat j) = Some (LT pv (a ! nat j))"
    using assms(1,2) Suc.prems by simp
  show ?case
  proof (cases "LT pv (a ! nat j)")
    case False
    have "scan_down cmp a pv j = Some j"
      using r c False by (subst scan_down.simps) simp
    then show ?thesis using False Suc.prems by auto
  next
    case True
    have ok: "int_ok (j - 1) = Some (j - 1)"
      using Suc.prems assms(2,6) by (intro int_ok_Some) auto
    have d: "d = nat (j - 1 - k)" using Suc.hyps(2) by simp
    have "k \<le> j - 1" "j - 1 < int (length a)" using Suc.prems Suc.hyps(2) by linarith+
    then obtain j' where s: "scan_down cmp a pv (j - 1) = Some j'" and b: "k \<le> j'" "j' \<le> j - 1"
      and st: "\<not> LT pv (a ! nat j')" and al: "\<forall>m. j' < m \<and> m \<le> j - 1 \<longrightarrow> LT pv (a ! nat m)"
      using Suc.hyps(1)[OF d] by blast
    have "scan_down cmp a pv j = Some j'"
      using r c True ok s by (subst scan_down.simps) simp
    moreover have "\<forall>m. j' < m \<and> m \<le> j \<longrightarrow> LT pv (a ! nat m)"
    proof (intro allI impI)
      fix m assume "j' < m \<and> m \<le> j"
      then have "m = j \<or> (j' < m \<and> m \<le> j - 1)" by auto
      then show "LT pv (a ! nat m)" using True al by auto
    qed
    ultimately show ?thesis using b st by auto
  qed
qed

lemma swap_nth:
  assumes "0 \<le> i" "i < int (length a)" "0 \<le> j" "j < int (length a)" "0 \<le> k" "k < int (length a)"
  shows "a[nat i := a ! nat j, nat j := a ! nat i] ! nat k =
     (if k = j then a ! nat i else if k = i then a ! nat j else a ! nat k)"
  using assms by (auto simp: nth_list_update)

lemma part_inv_swap:
  assumes P: "part_inv LT a0 pv l r a i j"
    and as: "\<And>x y. LT x y \<Longrightarrow> \<not> LT y x"
    and b: "0 \<le> l" "r < int (length a0)" "i \<le> i'" "i' \<le> j'" "j' \<le> j"
    and su: "\<forall>m. i \<le> m \<and> m < i' \<longrightarrow> LT (a ! nat m) pv" "\<not> LT (a ! nat i') pv"
    and sd: "\<forall>m. j' < m \<and> m \<le> j \<longrightarrow> LT pv (a ! nat m)" "\<not> LT pv (a ! nat j')"
  shows "part_inv LT a0 pv l r (a[nat i' := a ! nat j', nat j' := a ! nat i']) (i' + 1) (j' - 1)"
proof -
  let ?a' = "a[nat i' := a ! nat j', nat j' := a ! nat i']"
  have len: "length a = length a0" and ms: "mset a = mset a0"
    and out: "\<forall>k. 0 \<le> k \<and> k < int (length a) \<and> (k < l \<or> r < k) \<longrightarrow> a ! nat k = a0 ! nat k"
    and clo: "\<forall>k. l \<le> k \<and> k \<le> r \<longrightarrow> (\<exists>k'. l \<le> k' \<and> k' \<le> r \<and> a ! nat k = a0 ! nat k')"
    and bd: "l \<le> i" "i \<le> r + 1" "l - 1 \<le> j" "j \<le> r"
    and le: "\<forall>k. l \<le> k \<and> k < i \<longrightarrow> \<not> LT pv (a ! nat k)"
    and ri: "\<forall>k. j < k \<and> k \<le> r \<longrightarrow> \<not> LT (a ! nat k) pv"
    using P unfolding part_inv_def by blast+
  have rng: "0 \<le> i'" "i' < int (length a)" "0 \<le> j'" "j' < int (length a)"
    using b bd len by auto
  have nth: "?a' ! nat k = (if k = j' then a ! nat i' else if k = i' then a ! nat j' else a ! nat k)"
    if "0 \<le> k" "k < int (length a)" for k
    using swap_nth[OF rng(1,2) rng(3,4) that] .
  have c1: "length ?a' = length a0" using len by simp
  have c2: "mset ?a' = mset a0"
    using mset_swap[of "nat j'" a "nat i'"] rng ms by simp
  have c3: "\<forall>k. 0 \<le> k \<and> k < int (length ?a') \<and> (k < l \<or> r < k) \<longrightarrow> ?a' ! nat k = a0 ! nat k"
  proof (intro allI impI)
    fix k assume k: "0 \<le> k \<and> k < int (length ?a') \<and> (k < l \<or> r < k)"
    then have "k \<noteq> i'" "k \<noteq> j'" using b bd by auto
    then have "?a' ! nat k = a ! nat k" using nth[of k] k by simp
    then show "?a' ! nat k = a0 ! nat k" using out k by simp
  qed
  have c4: "\<forall>k. l \<le> k \<and> k \<le> r \<longrightarrow> (\<exists>k'. l \<le> k' \<and> k' \<le> r \<and> ?a' ! nat k = a0 ! nat k')"
  proof (intro allI impI)
    fix k assume k: "l \<le> k \<and> k \<le> r"
    then have kr: "0 \<le> k" "k < int (length a)" using b len by auto
    have ir: "l \<le> i' \<and> i' \<le> r" "l \<le> j' \<and> j' \<le> r" using b bd by auto
    have "\<exists>k2. l \<le> k2 \<and> k2 \<le> r \<and> ?a' ! nat k = a ! nat k2"
    proof (cases "k = j'")
      case True
      then have "?a' ! nat k = a ! nat i'" using nth[OF kr] by simp
      then show ?thesis using ir(1) by blast
    next
      case False
      show ?thesis
      proof (cases "k = i'")
        case True
        then have "?a' ! nat k = a ! nat j'" using nth[OF kr] False by simp
        then show ?thesis using ir(2) by blast
      next
        case F2: False
        then have "?a' ! nat k = a ! nat k" using nth[OF kr] False by simp
        then show ?thesis using k by blast
      qed
    qed
    then obtain k2 where "l \<le> k2 \<and> k2 \<le> r" "?a' ! nat k = a ! nat k2" by blast
    then show "\<exists>k'. l \<le> k' \<and> k' \<le> r \<and> ?a' ! nat k = a0 ! nat k'"
      using clo by metis
  qed
  have c5: "l \<le> i' + 1" "i' + 1 \<le> r + 1" "l - 1 \<le> j' - 1" "j' - 1 \<le> r"
    using b bd by auto
  have c6: "\<forall>k. l \<le> k \<and> k < i' + 1 \<longrightarrow> \<not> LT pv (?a' ! nat k)"
  proof (intro allI impI)
    fix k assume k: "l \<le> k \<and> k < i' + 1"
    then have kr: "0 \<le> k" "k < int (length a)" using b rng by auto
    show "\<not> LT pv (?a' ! nat k)"
    proof (cases "k = i'")
      case True
      then have "?a' ! nat k = a ! nat j'" using nth[OF kr] by auto
      then show ?thesis using sd(2) by simp
    next
      case False
      then have lt: "k < i'" using k by simp
      then have "k \<noteq> j'" using b by simp
      then have e: "?a' ! nat k = a ! nat k" using nth[OF kr] False by simp
      show ?thesis
      proof (cases "k < i")
        case True
        then show ?thesis using le k e by simp
      next
        case False
        then have "LT (a ! nat k) pv" using su(1) lt by simp
        then show ?thesis using as e by auto
      qed
    qed
  qed
  have c7: "\<forall>k. j' - 1 < k \<and> k \<le> r \<longrightarrow> \<not> LT (?a' ! nat k) pv"
  proof (intro allI impI)
    fix k assume k: "j' - 1 < k \<and> k \<le> r"
    then have kr: "0 \<le> k" "k < int (length a)" using b rng len by auto
    show "\<not> LT (?a' ! nat k) pv"
    proof (cases "k = j'")
      case True
      then have "?a' ! nat k = a ! nat i'" using nth[OF kr] by auto
      then show ?thesis using su(2) by simp
    next
      case False
      then have gt: "j' < k" using k by simp
      then have "k \<noteq> i'" using b by simp
      then have e: "?a' ! nat k = a ! nat k" using nth[OF kr] False by simp
      show ?thesis
      proof (cases "j < k")
        case True
        then show ?thesis using ri k e by simp
      next
        case False
        then have "LT pv (a ! nat k)" using sd(1) gt by simp
        then show ?thesis using as e by auto
      qed
    qed
  qed
  have c8: "i' + 1 \<le> j' - 1 \<longrightarrow> (\<exists>k. i' + 1 \<le> k \<and> k \<le> r \<and> \<not> LT (?a' ! nat k) pv) \<and>
                (\<exists>k. l \<le> k \<and> k \<le> j' - 1 \<and> \<not> LT pv (?a' ! nat k))"
  proof
    assume h: "i' + 1 \<le> j' - 1"
    have "?a' ! nat j' = a ! nat i'" using nth[OF rng(3,4)] by simp
    then have 1: "i' + 1 \<le> j' \<and> j' \<le> r \<and> \<not> LT (?a' ! nat j') pv"
      using h b bd su(2) by simp
    have "?a' ! nat i' = a ! nat j'" using nth[OF rng(1,2)] h by simp
    then have 2: "l \<le> i' \<and> i' \<le> j' - 1 \<and> \<not> LT pv (?a' ! nat i')"
      using h b bd sd(2) by simp
    show "(\<exists>k. i' + 1 \<le> k \<and> k \<le> r \<and> \<not> LT (?a' ! nat k) pv) \<and>
                (\<exists>k. l \<le> k \<and> k \<le> j' - 1 \<and> \<not> LT pv (?a' ! nat k))"
      using 1 2 by blast
  qed
  have c9: "l < i' + 1 \<and> j' - 1 < r" using b bd by auto
  show ?thesis
    unfolding part_inv_def using c1 c2 c3 c4 c5 c6 c7 c8 c9 by blast
qed

lemma part_inv_noswap:
  assumes P: "part_inv LT a0 pv l r a i j"
    and as: "\<And>x y. LT x y \<Longrightarrow> \<not> LT y x"
    and b: "i \<le> i'" "i' \<le> r" "l \<le> j'" "j' \<le> j" "j' < i'"
    and su: "\<forall>m. i \<le> m \<and> m < i' \<longrightarrow> LT (a ! nat m) pv"
    and sd: "\<forall>m. j' < m \<and> m \<le> j \<longrightarrow> LT pv (a ! nat m)"
  shows "part_inv LT a0 pv l r a i' j'"
proof -
  have len: "length a = length a0" and ms: "mset a = mset a0"
    and out: "\<forall>k. 0 \<le> k \<and> k < int (length a) \<and> (k < l \<or> r < k) \<longrightarrow> a ! nat k = a0 ! nat k"
    and clo: "\<forall>k. l \<le> k \<and> k \<le> r \<longrightarrow> (\<exists>k'. l \<le> k' \<and> k' \<le> r \<and> a ! nat k = a0 ! nat k')"
    and bd: "l \<le> i" "i \<le> r + 1" "l - 1 \<le> j" "j \<le> r"
    and le: "\<forall>k. l \<le> k \<and> k < i \<longrightarrow> \<not> LT pv (a ! nat k)"
    and ri: "\<forall>k. j < k \<and> k \<le> r \<longrightarrow> \<not> LT (a ! nat k) pv"
    and pr: "(i = l \<and> j = r \<and> (\<exists>m. l \<le> m \<and> m \<le> r \<and> \<not> LT (a ! nat m) pv \<and> \<not> LT pv (a ! nat m))) \<or>
      (l < i \<and> j < r)"
    using P unfolding part_inv_def by blast+
  have c5: "l \<le> i'" "i' \<le> r + 1" "l - 1 \<le> j'" "j' \<le> r" using b bd by auto
  have c6: "\<forall>k. l \<le> k \<and> k < i' \<longrightarrow> \<not> LT pv (a ! nat k)"
  proof (intro allI impI)
    fix k assume k: "l \<le> k \<and> k < i'"
    show "\<not> LT pv (a ! nat k)"
    proof (cases "k < i")
      case True
      then show ?thesis using le k by simp
    next
      case False
      then have "LT (a ! nat k) pv" using su k by simp
      then show ?thesis using as by auto
    qed
  qed
  have c7: "\<forall>k. j' < k \<and> k \<le> r \<longrightarrow> \<not> LT (a ! nat k) pv"
  proof (intro allI impI)
    fix k assume k: "j' < k \<and> k \<le> r"
    show "\<not> LT (a ! nat k) pv"
    proof (cases "j < k")
      case True
      then show ?thesis using ri k by simp
    next
      case False
      then have "LT pv (a ! nat k)" using sd k by simp
      then show ?thesis using as by auto
    qed
  qed
  have c9: "l < i' \<and> j' < r"
  proof (rule disjE[OF pr])
    assume "l < i \<and> j < r"
    then show ?thesis using b by auto
  next
    assume h: "i = l \<and> j = r \<and> (\<exists>m. l \<le> m \<and> m \<le> r \<and> \<not> LT (a ! nat m) pv \<and> \<not> LT pv (a ! nat m))"
    then obtain m where m: "l \<le> m" "m \<le> r" "\<not> LT (a ! nat m) pv" "\<not> LT pv (a ! nat m)"
      by blast
    have "i' \<le> m" using su m h by (metis not_le)
    moreover have "m \<le> j'" using sd m h by (metis not_le)
    ultimately show ?thesis using b by simp
  qed
  show ?thesis
    unfolding part_inv_def using len ms out clo c5 c6 c7 c9 b(5) by auto
qed

lemma part_inv_init:
  assumes "0 \<le> l" "l \<le> m" "m \<le> r" "r < int (length a)" "\<And>x. \<not> LT x x"
  shows "part_inv LT a (a ! nat m) l r a l r"
  unfolding part_inv_def using assms by auto

lemma partition_run:
  assumes tot: "\<forall>x\<in>set a0. cmp x pv = Some (LT x pv) \<and> cmp pv x = Some (LT pv x)"
    and as: "\<And>x y. LT x y \<Longrightarrow> \<not> LT y x"
    and b: "0 \<le> l" "r < int (length a0)" "int (length a0) \<le> 2 ^ 30"
    and P: "part_inv LT a0 pv l r a i j"
  shows "\<exists>a' i' j'. partition_loop cmp a pv i j = Some (a', i', j') \<and>
           part_inv LT a0 pv l r a' i' j' \<and> j' < i'"
  using P
proof (induction "nat (j - i + 1)" arbitrary: a i j rule: less_induct)
  case less
  note P = less.prems
  have len: "length a = length a0" and ms: "mset a = mset a0"
    and bd: "l \<le> i" "i \<le> r + 1" "l - 1 \<le> j" "j \<le> r"
    and stp: "i \<le> j \<longrightarrow> (\<exists>k. i \<le> k \<and> k \<le> r \<and> \<not> LT (a ! nat k) pv) \<and>
                (\<exists>k. l \<le> k \<and> k \<le> j \<and> \<not> LT pv (a ! nat k))"
    using P unfolding part_inv_def by blast+
  have seta: "set a = set a0" using ms by (metis set_mset_mset)
  show ?case
  proof (cases "i \<le> j")
    case False
    then have "partition_loop cmp a pv i j = Some (a, i, j)"
      by (subst partition_loop.simps) simp
    then show ?thesis using P False by auto
  next
    case True
    obtain k1 k2 where k1: "i \<le> k1" "k1 \<le> r" "\<not> LT (a ! nat k1) pv"
      and k2: "l \<le> k2" "k2 \<le> j" "\<not> LT pv (a ! nat k2)"
      using stp True by blast
    have t1: "\<forall>x\<in>set a. cmp x pv = Some (LT x pv)" and t2: "\<forall>x\<in>set a. cmp pv x = Some (LT pv x)"
      using tot seta by auto
    have la: "int (length a) \<le> 2 ^ 30" using b len by simp
    have i0: "0 \<le> i" and k1n: "k1 < int (length a)" and k20: "0 \<le> k2" and jn: "j < int (length a)"
      using b bd k1 k2 len by auto
    have "\<exists>i'. scan_up cmp a pv i = Some i' \<and> i \<le> i' \<and> i' \<le> k1 \<and> \<not> LT (a ! nat i') pv \<and>
           (\<forall>m. i \<le> m \<and> m < i' \<longrightarrow> LT (a ! nat m) pv)"
      by (rule scan_up_run[where LT=LT and cmp=cmp and a=a and pv=pv and i=i and k=k1, OF t1 i0 k1(1) k1n k1(3) la])
    then obtain i' where su: "scan_up cmp a pv i = Some i'" "i \<le> i'" "i' \<le> k1" "\<not> LT (a ! nat i') pv"
      "\<forall>m. i \<le> m \<and> m < i' \<longrightarrow> LT (a ! nat m) pv"
      by blast
    have "\<exists>j'. scan_down cmp a pv j = Some j' \<and> k2 \<le> j' \<and> j' \<le> j \<and> \<not> LT pv (a ! nat j') \<and>
           (\<forall>m. j' < m \<and> m \<le> j \<longrightarrow> LT pv (a ! nat m))"
      by (rule scan_down_run[where LT=LT and cmp=cmp and a=a and pv=pv and j=j and k=k2, OF t2 k20 k2(2) jn k2(3) la])
    then obtain j' where sd: "scan_down cmp a pv j = Some j'" "k2 \<le> j'" "j' \<le> j" "\<not> LT pv (a ! nat j')"
      "\<forall>m. j' < m \<and> m \<le> j \<longrightarrow> LT pv (a ! nat m)"
      by blast
    show ?thesis
    proof (cases "i' \<le> j'")
      case sw: True
      let ?a' = "a[nat i' := a ! nat j', nat j' := a ! nat i']"
      have rng: "0 \<le> i'" "i' < int (length a)" "0 \<le> j'" "j' < int (length a)"
        using b bd su sd k1 k2 len by auto
      have P': "part_inv LT a0 pv l r ?a' (i' + 1) (j' - 1)"
        by (rule part_inv_swap[OF P as b(1,2) su(2) sw sd(3) su(5,4) sd(5,4)])
      have "nat (j' - 1 - (i' + 1) + 1) < nat (j - i + 1)" using su sd sw True by linarith
      from less.hyps[OF this P']
      obtain a2 i2 j2 where r2: "partition_loop cmp ?a' pv (i' + 1) (j' - 1) = Some (a2, i2, j2)"
        "part_inv LT a0 pv l r a2 i2 j2" "j2 < i2"
        by blast
      have ok: "int_ok (i' + 1) = Some (i' + 1)" "int_ok (j' - 1) = Some (j' - 1)"
        using rng la by (auto intro!: int_ok_Some)
      have "partition_loop cmp a pv i j = Some (a2, i2, j2)"
        using True su(1) sd(1) sw rng ok r2(1)
        by (subst partition_loop.simps) (simp add: rd_Some wr_Some)
      then show ?thesis using r2 by blast
    next
      case ns: False
      have P': "part_inv LT a0 pv l r a i' j'"
        by (rule part_inv_noswap[OF P as su(2) _ _ sd(3) _ su(5) sd(5)]) (use su sd k1 k2 ns in auto)
      have "partition_loop cmp a pv i' j' = Some (a, i', j')"
        using ns by (subst partition_loop.simps) simp
      then have "partition_loop cmp a pv i j = Some (a, i', j')"
        using True su(1) sd(1) ns by (subst partition_loop.simps) simp
      then show ?thesis using P' ns by auto
    qed
  qed
qed

lemma stack_of_pop:
  assumes "0 \<le> tp"
  shows "stack_of L R tp = stack_of L R (tp - 1) @ [(L ! nat tp, R ! nat tp)]"
proof -
  have "nat (tp + 1) = Suc (nat tp)" "nat (tp - 1 + 1) = nat tp" using assms by auto
  then show ?thesis by (simp add: stack_of_def)
qed

lemma stack_of_empty: "stack_of L R (- 1) = []"
  by (simp add: stack_of_def)

lemma stack_of_length: "- 1 \<le> tp \<Longrightarrow> int (length (stack_of L R tp)) = tp + 1"
  by (simp add: stack_of_def)

lemma push_run:
  assumes "- 1 \<le> tp" and "tp + 1 < int (length L)" and "length R = length L"
    and "int (length L) \<le> 2 ^ 30"
  shows "\<exists>L' R'. push L R tp l r = Some (L', R', tp + 1) \<and> length L' = length L \<and>
           length R' = length L \<and> stack_of L' R' (tp + 1) = stack_of L R tp @ [(l, r)]"
proof -
  let ?k = "nat (tp + 1)"
  let ?L' = "L[?k := l]" and ?R' = "R[?k := r]"
  have ok: "int_ok (tp + 1) = Some (tp + 1)" using assms by (intro int_ok_Some) auto
  have p: "push L R tp l r = Some (?L', ?R', tp + 1)"
    using assms ok by (simp add: push_def wr_Some)
  have k: "?k < length L" using assms by auto
  have "map (\<lambda>k. (?L' ! k, ?R' ! k)) [0..<?k] = map (\<lambda>k. (L ! k, R ! k)) [0..<?k]"
    by (rule map_cong) auto
  moreover have "nat (tp + 1 + 1) = Suc ?k" "(?L' ! ?k, ?R' ! ?k) = (l, r)"
    using assms k by auto
  ultimately have "stack_of ?L' ?R' (tp + 1) = stack_of L R tp @ [(l, r)]"
    by (simp add: stack_of_def)
  then show ?thesis using p assms(3) by simp
qed

lemma disj_ranges_append:
  "disj_ranges (xs @ ys) \<longleftrightarrow> disj_ranges xs \<and> disj_ranges ys \<and>
     (\<forall>x\<in>set xs. \<forall>y\<in>set ys. snd x < fst y \<or> snd y < fst x)"
  by (induction xs) auto

lemma sizes_ge2:
  "(\<forall>x\<in>set stk. fst x < snd x) \<Longrightarrow> 2 * int (length stk) \<le> sum_list (map (\<lambda>x. snd x - fst x + 1) stk)"
  for stk :: "(int \<times> int) list"
  by (induction stk) auto

lemma sizes_pos:
  "(\<forall>x\<in>set stk. fst x < snd x) \<Longrightarrow> (0::int) \<le> sum_list (map (\<lambda>x. 2 * (snd x - fst x) + 1) stk)"
  by (induction stk) auto

lemma stack_inv_step:
  assumes S: "stack_inv LT n a (rest @ [(l, r)])"
    and P: "part_inv LT a pv l r a' i j" and ji: "j < i"
    and len: "length a = n"
    and nt: "\<And>x y z. \<not> LT x y \<Longrightarrow> \<not> LT y z \<Longrightarrow> \<not> LT x z"
  shows "stack_inv LT n a' (rest @ (if l < j then [(l, j)] else []) @ (if i < r then [(i, r)] else []))"
    and "stack_measure (rest @ (if l < j then [(l, j)] else []) @ (if i < r then [(i, r)] else []))
           < stack_measure (rest @ [(l, r)])"
proof -
  let ?A = "if l < j then [(l, j)] else []" and ?B = "if i < r then [(i, r)] else []"
  from S have rg: "\<forall>x\<in>set rest. 0 \<le> fst x \<and> fst x < snd x \<and> snd x < int n"
    and lr: "0 \<le> l" "l < r" "r < int n"
    and dr: "disj_ranges rest"
    and dx: "\<forall>x\<in>set rest. snd x < l \<or> r < fst x"
    and sm: "sum_list (map (\<lambda>x. snd x - fst x + 1) rest) + (r - l + 1) \<le> int n"
    and so: "\<forall>p q. 0 \<le> p \<and> p < q \<and> q < int n \<and> \<not> (\<exists>x\<in>set (rest @ [(l, r)]). fst x \<le> p \<and> q \<le> snd x)
        \<longrightarrow> \<not> LT (a ! nat q) (a ! nat p)"
    by (simp_all add: stack_inv_def disj_ranges_append)
  from P have la: "length a' = length a"
    and out: "\<forall>k. 0 \<le> k \<and> k < int (length a') \<and> (k < l \<or> r < k) \<longrightarrow> a' ! nat k = a ! nat k"
    and clo: "\<forall>k. l \<le> k \<and> k \<le> r \<longrightarrow> (\<exists>k'. l \<le> k' \<and> k' \<le> r \<and> a' ! nat k = a ! nat k')"
    and bd: "l \<le> i" "i \<le> r + 1" "l - 1 \<le> j" "j \<le> r"
    and le: "\<forall>k. l \<le> k \<and> k < i \<longrightarrow> \<not> LT pv (a' ! nat k)"
    and ri: "\<forall>k. j < k \<and> k \<le> r \<longrightarrow> \<not> LT (a' ! nat k) pv"
    and pr: "(i = l \<and> j = r \<and> (\<exists>m. l \<le> m \<and> m \<le> r \<and> \<not> LT (a' ! nat m) pv \<and> \<not> LT pv (a' ! nat m))) \<or>
      (l < i \<and> j < r)"
    by (simp_all add: part_inv_def)
  from pr ji lr have st: "l < i" "j < r" by auto
  have g1: "\<forall>x\<in>set (rest @ ?A @ ?B). 0 \<le> fst x \<and> fst x < snd x \<and> snd x < int n"
    using rg lr st by auto
  have g2: "disj_ranges (rest @ ?A @ ?B)"
    using dr dx ji st by (auto simp: disj_ranges_append)
  have g3: "sum_list (map (\<lambda>x. snd x - fst x + 1) (rest @ ?A @ ?B)) \<le> int n"
    using sm ji st lr by auto
  have g4: "\<not> LT (a' ! nat q) (a' ! nat p)"
    if pq: "0 \<le> p" "p < q" "q < int n"
      and nin: "\<not> (\<exists>x\<in>set (rest @ ?A @ ?B). fst x \<le> p \<and> q \<le> snd x)" for p q
  proof -
    from nin have nrest: "\<And>x. x \<in> set rest \<Longrightarrow> \<not> (fst x \<le> p \<and> q \<le> snd x)" by auto
    have nA: "\<not> (l \<le> p \<and> q \<le> j)" using nin pq by (cases "l < j") auto
    have nB: "\<not> (i \<le> p \<and> q \<le> r)" using nin pq by (cases "i < r") auto
    consider (A) "l \<le> p" "q \<le> r" | (B) "l \<le> p" "p \<le> r" "r < q" | (C) "p < l" "l \<le> q" "q \<le> r"
      | (D) "p < l" "r < q" | (E) "q < l" | (F) "r < p"
      using pq by linarith
    then show ?thesis
    proof cases
      case A
      then have "p < i" "j < q" using nA nB by auto
      then have "\<not> LT pv (a' ! nat p)" "\<not> LT (a' ! nat q) pv" using le ri A pq by auto
      then show ?thesis using nt by blast
    next
      case B
      have q: "a' ! nat q = a ! nat q" using out B pq la len by auto
      from clo B obtain k' where k: "l \<le> k'" "k' \<le> r" "a' ! nat p = a ! nat k'" by blast
      have "\<not> (fst x \<le> k' \<and> q \<le> snd x)" if x: "x \<in> set (rest @ [(l, r)])" for x
      proof (cases "x = (l, r)")
        case True
        then show ?thesis using B by auto
      next
        case False
        with x have "x \<in> set rest" by auto
        with dx have "snd x < l \<or> r < fst x" by blast
        then show ?thesis using k B by auto
      qed
      then have "\<not> (\<exists>x\<in>set (rest @ [(l, r)]). fst x \<le> k' \<and> q \<le> snd x)" by blast
      moreover have "0 \<le> k'" "k' < q" using k lr B by auto
      ultimately have "\<not> LT (a ! nat q) (a ! nat k')" using so pq by blast
      then show ?thesis using q k by simp
    next
      case C
      have p: "a' ! nat p = a ! nat p" using out C pq la len by auto
      from clo C obtain k' where k: "l \<le> k'" "k' \<le> r" "a' ! nat q = a ! nat k'" by blast
      have "\<not> (fst x \<le> p \<and> k' \<le> snd x)" if x: "x \<in> set (rest @ [(l, r)])" for x
      proof (cases "x = (l, r)")
        case True
        then show ?thesis using C by auto
      next
        case False
        with x have "x \<in> set rest" by auto
        with dx have "snd x < l \<or> r < fst x" by blast
        then show ?thesis using k C by auto
      qed
      then have "\<not> (\<exists>x\<in>set (rest @ [(l, r)]). fst x \<le> p \<and> k' \<le> snd x)" by blast
      moreover have "p < k'" "k' < int n" using k lr C by auto
      ultimately have "\<not> LT (a ! nat k') (a ! nat p)" using so pq by blast
      then show ?thesis using p k by simp
    next
      case D
      have e: "a' ! nat p = a ! nat p" "a' ! nat q = a ! nat q" using out D pq la len by auto
      have "\<not> (fst x \<le> p \<and> q \<le> snd x)" if x: "x \<in> set (rest @ [(l, r)])" for x
      proof (cases "x = (l, r)")
        case True
        then show ?thesis using D by auto
      next
        case False
        with x have "x \<in> set rest" by auto
        with dx have "snd x < l \<or> r < fst x" by blast
        then show ?thesis using D lr by auto
      qed
      then have "\<not> (\<exists>x\<in>set (rest @ [(l, r)]). fst x \<le> p \<and> q \<le> snd x)" by blast
      then have "\<not> LT (a ! nat q) (a ! nat p)" using so pq by blast
      then show ?thesis using e by simp
    next
      case E
      have e: "a' ! nat p = a ! nat p" "a' ! nat q = a ! nat q" using out E pq la len by auto
      have "\<not> (\<exists>x\<in>set (rest @ [(l, r)]). fst x \<le> p \<and> q \<le> snd x)"
        using nrest E pq by auto
      then have "\<not> LT (a ! nat q) (a ! nat p)" using so pq by blast
      then show ?thesis using e by simp
    next
      case F
      have e: "a' ! nat p = a ! nat p" "a' ! nat q = a ! nat q" using out F pq la len by auto
      have "\<not> (\<exists>x\<in>set (rest @ [(l, r)]). fst x \<le> p \<and> q \<le> snd x)"
        using nrest F pq by auto
      then have "\<not> LT (a ! nat q) (a ! nat p)" using so pq by blast
      then show ?thesis using e by simp
    qed
  qed
  show "stack_inv LT n a' (rest @ ?A @ ?B)"
    unfolding stack_inv_def using g1 g2 g3 g4 by blast
  have "\<forall>x\<in>set rest. fst x < snd x" using rg by auto
  from sizes_pos[OF this] show "stack_measure (rest @ ?A @ ?B) < stack_measure (rest @ [(l, r)])"
    using ji st lr by (auto simp: stack_measure_def)
qed

lemma sort_step_run:
  assumes tot: "\<forall>x\<in>set a0. \<forall>y\<in>set a0. cmp x y = Some (LT x y)"
    and as: "\<And>x y. LT x y \<Longrightarrow> \<not> LT y x"
    and nt: "\<And>x y z. \<not> LT x y \<Longrightarrow> \<not> LT y z \<Longrightarrow> \<not> LT x z"
    and n: "int (length a0) \<le> 2 ^ 30"
    and I: "sort_inv LT a0 (a, L, R, tp)" and tp: "0 \<le> tp"
  shows "\<exists>a' L' R' tp' i j. sort_step cmp (a, L, R, tp) = Some (a', L', R', tp') \<and>
           sort_inv LT a0 (a', L', R', tp') \<and>
           stack_measure (stack_of L' R' tp') < stack_measure (stack_of L R tp) \<and>
           j < i \<and>
           partition_loop cmp a (a ! nat ((L ! nat tp + R ! nat tp) div 2)) (L ! nat tp) (R ! nat tp)
             = Some (a', i, j) \<and>
           stack_of L' R' tp' = stack_of L R (tp - 1) @
             (if L ! nat tp < j then [(L ! nat tp, j)] else []) @
             (if i < R ! nat tp then [(i, R ! nat tp)] else [])"
proof -
  define l where "l = L ! nat tp"
  define r where "r = R ! nat tp"
  define rest where "rest = stack_of L R (tp - 1)"
  define N where "N = length a0"
  from I have la: "length a = N" and ms: "mset a = mset a0" and lL: "length L = N"
    and lR: "length R = N" and S: "stack_inv LT N a (stack_of L R tp)"
    by (simp_all add: sort_inv_def N_def)
  have so: "stack_of L R tp = rest @ [(l, r)]"
    using stack_of_pop[OF tp] by (simp add: rest_def l_def r_def)
  have S': "stack_inv LT N a (rest @ [(l, r)])" using S so by simp
  then have rg: "\<forall>x\<in>set (rest @ [(l, r)]). fst x < snd x"
    and sm: "sum_list (map (\<lambda>x. snd x - fst x + 1) (rest @ [(l, r)])) \<le> int N"
    and lr: "0 \<le> l" "l < r" "r < int N"
    by (simp_all add: stack_inv_def)
  have lrest: "int (length rest) = tp" using stack_of_length[of "tp - 1" L R] tp by (simp add: rest_def)
  from sizes_ge2[OF rg] sm lrest have tpN: "2 * (tp + 1) \<le> int N" by simp
  have N30: "int N \<le> 2 ^ 30" using n by (simp add: N_def)
  have rdL: "rd L tp = Some l" and rdR: "rd R tp = Some r"
    using tp tpN lL lR by (simp_all add: rd_Some l_def r_def)
  have ok1: "int_ok (tp - 1) = Some (tp - 1)" using tp tpN N30 by (intro int_ok_Some) auto
  have ok2: "int_ok (l + r) = Some (l + r)" using lr N30 by (intro int_ok_Some) auto
  define m where "m = (l + r) div 2"
  have mb: "l \<le> m" "m \<le> r" using lr by (auto simp: m_def)
  define pv where "pv = a ! nat m"
  have rdm: "rd a ((l + r) div 2) = Some pv" using mb lr la by (simp add: rd_Some pv_def m_def)
  have sa: "set a = set a0" using ms by (rule mset_eq_setD)
  have "pv \<in> set a" using mb lr la by (auto simp: pv_def)
  then have tot': "\<forall>x\<in>set a. cmp x pv = Some (LT x pv) \<and> cmp pv x = Some (LT pv x)"
    using tot sa by auto
  have irr: "\<And>x. \<not> LT x x" using as by blast
  have P0: "part_inv LT a pv l r a l r"
    unfolding pv_def using lr mb la by (intro part_inv_init irr) auto
  have "\<exists>a' i' j'. partition_loop cmp a pv l r = Some (a', i', j') \<and>
           part_inv LT a pv l r a' i' j' \<and> j' < i'"
    using lr la N30 by (intro partition_run[where LT=LT and a0=a] tot' as P0) auto
  then obtain a' i j where pl: "partition_loop cmp a pv l r = Some (a', i, j)"
    and P: "part_inv LT a pv l r a' i j" and ji: "j < i" by blast
  let ?A = "if l < j then [(l, j)] else []" and ?B = "if i < r then [(i, r)] else []"
  have Sn: "stack_inv LT N a' (rest @ ?A @ ?B)"
    by (rule stack_inv_step(1)[OF S' P ji la]) (use nt in blast)
  have Mn: "stack_measure (rest @ ?A @ ?B) < stack_measure (rest @ [(l, r)])"
    by (rule stack_inv_step(2)[OF S' P ji la]) (use nt in blast)
  from Sn have rgn: "\<forall>x\<in>set (rest @ ?A @ ?B). fst x < snd x"
    and smn: "sum_list (map (\<lambda>x. snd x - fst x + 1) (rest @ ?A @ ?B)) \<le> int N"
    by (simp_all add: stack_inv_def)
  from sizes_ge2[OF rgn] smn have len: "2 * int (length (rest @ ?A @ ?B)) \<le> int N" by simp
  from P have la': "length a' = N" and ms': "mset a' = mset a0"
    using la ms by (simp_all add: part_inv_def)
  have m1: "- 1 \<le> tp - 1" using tp by simp
  have restL: "stack_of L R (tp - 1) = rest" by (simp add: rest_def)
  have "\<exists>L1 R1 tp1. (if l < j then push L R (tp - 1) l j else Some (L, R, tp - 1)) = Some (L1, R1, tp1) \<and>
          length L1 = N \<and> length R1 = N \<and> stack_of L1 R1 tp1 = rest @ ?A \<and> - 1 \<le> tp1 \<and>
          tp1 = tp - 1 + int (length ?A)"
  proof (cases "l < j")
    case True
    have "\<exists>L' R'. push L R (tp - 1) l j = Some (L', R', tp - 1 + 1) \<and> length L' = length L \<and>
           length R' = length L \<and> stack_of L' R' (tp - 1 + 1) = stack_of L R (tp - 1) @ [(l, j)]"
      using tp tpN lL lR N30 by (intro push_run) auto
    then show ?thesis using True tp lL restL by auto
  next
    case False
    then show ?thesis using lL lR tp restL by auto
  qed
  then obtain L1 R1 tp1 where p1: "(if l < j then push L R (tp - 1) l j else Some (L, R, tp - 1)) = Some (L1, R1, tp1)"
    and l1: "length L1 = N" "length R1 = N" and s1: "stack_of L1 R1 tp1 = rest @ ?A" and t1: "- 1 \<le> tp1"
    and t1e: "tp1 = tp - 1 + int (length ?A)"
    by blast
  have "\<exists>L2 R2 tp2. (if i < r then push L1 R1 tp1 i r else Some (L1, R1, tp1)) = Some (L2, R2, tp2) \<and>
          length L2 = N \<and> length R2 = N \<and> stack_of L2 R2 tp2 = rest @ ?A @ ?B \<and> - 1 \<le> tp2"
  proof (cases "i < r")
    case True
    have "tp1 + 1 < int N" using len lrest t1e True by (auto split: if_splits)
    then have "\<exists>L' R'. push L1 R1 tp1 i r = Some (L', R', tp1 + 1) \<and> length L' = length L1 \<and>
           length R' = length L1 \<and> stack_of L' R' (tp1 + 1) = stack_of L1 R1 tp1 @ [(i, r)]"
      using t1 l1 N30 by (intro push_run) auto
    then show ?thesis using True t1 l1 s1 by auto
  next
    case False
    then show ?thesis using l1 t1 s1 by auto
  qed
  then obtain L2 R2 tp2 where p2: "(if i < r then push L1 R1 tp1 i r else Some (L1, R1, tp1)) = Some (L2, R2, tp2)"
    and l2: "length L2 = N" "length R2 = N" and s2: "stack_of L2 R2 tp2 = rest @ ?A @ ?B" and t2: "- 1 \<le> tp2"
    by blast
  have step: "sort_step cmp (a, L, R, tp) = Some (a', L2, R2, tp2)"
    by (simp add: sort_step_def rdL rdR ok1 ok2 rdm pl p1 p2)
  have inv: "sort_inv LT a0 (a', L2, R2, tp2)"
    using la' ms' l2 t2 Sn s2 by (simp add: sort_inv_def N_def)
  have "stack_measure (stack_of L2 R2 tp2) < stack_measure (stack_of L R tp)"
    using Mn s2 so by simp
  with step inv ji s2 pl show ?thesis
    unfolding rest_def l_def r_def pv_def m_def by blast
qed

lemma sort_loop_run:
  assumes tot: "\<forall>x\<in>set a0. \<forall>y\<in>set a0. cmp x y = Some (LT x y)"
    and as: "\<And>x y. LT x y \<Longrightarrow> \<not> LT y x"
    and nt: "\<And>x y z. \<not> LT x y \<Longrightarrow> \<not> LT y z \<Longrightarrow> \<not> LT x z"
    and n: "int (length a0) \<le> 2 ^ 30"
  shows "sort_inv LT a0 (a, L, R, tp) \<Longrightarrow>
         \<exists>a'. sort_loop cmp (a, L, R, tp) = Some a' \<and> length a' = length a0 \<and> mset a' = mset a0 \<and>
           (\<forall>p q. 0 \<le> p \<and> p < q \<and> q < int (length a0) \<longrightarrow> \<not> LT (a' ! nat q) (a' ! nat p))"
proof (induction "stack_measure (stack_of L R tp)" arbitrary: a L R tp rule: less_induct)
  case less
  note I = less.prems
  show ?case
  proof (cases "0 \<le> tp")
    case True
    have "\<exists>a' L' R' tp' i j. sort_step cmp (a, L, R, tp) = Some (a', L', R', tp') \<and>
           sort_inv LT a0 (a', L', R', tp') \<and>
           stack_measure (stack_of L' R' tp') < stack_measure (stack_of L R tp) \<and>
           j < i \<and>
           partition_loop cmp a (a ! nat ((L ! nat tp + R ! nat tp) div 2)) (L ! nat tp) (R ! nat tp)
             = Some (a', i, j) \<and>
           stack_of L' R' tp' = stack_of L R (tp - 1) @
             (if L ! nat tp < j then [(L ! nat tp, j)] else []) @
             (if i < R ! nat tp then [(i, R ! nat tp)] else [])"
      by (rule sort_step_run[where LT=LT, OF tot _ _ n I True]) (use as nt in blast)+
    then obtain a' L' R' tp' where st: "sort_step cmp (a, L, R, tp) = Some (a', L', R', tp')"
      and I': "sort_inv LT a0 (a', L', R', tp')"
      and M: "stack_measure (stack_of L' R' tp') < stack_measure (stack_of L R tp)"
      by blast
    have "sort_loop cmp (a, L, R, tp) = sort_loop cmp (a', L', R', tp')"
      using True st by (subst sort_loop.simps) simp
    then show ?thesis using less.hyps[OF M I'] by simp
  next
    case False
    with I have t: "tp = - 1" by (simp add: sort_inv_def)
    have "sort_loop cmp (a, L, R, tp) = Some a"
      using False by (subst sort_loop.simps) simp
    moreover from I have "length a = length a0" "mset a = mset a0"
      "\<forall>p q. 0 \<le> p \<and> p < q \<and> q < int (length a0) \<longrightarrow> \<not> LT (a ! nat q) (a ! nat p)"
      unfolding t by (simp_all add: sort_inv_def stack_inv_def stack_of_empty)
    ultimately show ?thesis by simp
  qed
qed

lemma sort_rounds_inv:
  assumes tot: "\<forall>x\<in>set a0. \<forall>y\<in>set a0. cmp x y = Some (LT x y)"
    and as: "\<And>x y. LT x y \<Longrightarrow> \<not> LT y x"
    and nt: "\<And>x y z. \<not> LT x y \<Longrightarrow> \<not> LT y z \<Longrightarrow> \<not> LT x z"
    and n: "int (length a0) \<le> 2 ^ 30"
    and I: "sort_inv LT a0 st0"
  shows "sort_rounds cmp k st0 = Some st \<Longrightarrow> sort_inv LT a0 st"
proof (induction k arbitrary: st)
  case 0
  then show ?case using I by simp
next
  case (Suc k)
  from Suc.prems obtain a L R tp where s: "sort_rounds cmp k st0 = Some (a, L, R, tp)"
    and tp: "0 \<le> tp" and e: "sort_step cmp (a, L, R, tp) = Some st"
    by (cases "sort_rounds cmp k st0") (auto split: if_splits)
  have I': "sort_inv LT a0 (a, L, R, tp)" by (rule Suc.IH[OF s])
  have "\<exists>a' L' R' tp' i j. sort_step cmp (a, L, R, tp) = Some (a', L', R', tp') \<and>
           sort_inv LT a0 (a', L', R', tp') \<and>
           stack_measure (stack_of L' R' tp') < stack_measure (stack_of L R tp) \<and>
           j < i \<and>
           partition_loop cmp a (a ! nat ((L ! nat tp + R ! nat tp) div 2)) (L ! nat tp) (R ! nat tp)
             = Some (a', i, j) \<and>
           stack_of L' R' tp' = stack_of L R (tp - 1) @
             (if L ! nat tp < j then [(L ! nat tp, j)] else []) @
             (if i < R ! nat tp then [(i, R ! nat tp)] else [])"
    by (rule sort_step_run[where LT=LT, OF tot _ _ n I' tp]) (use as nt in blast)+
  then show ?case using e by auto
qed

lemma sort_inv_bounds:
  assumes "sort_inv LT a0 (a, L, R, tp)"
  shows "- 1 \<le> tp" and "2 * (tp + 1) \<le> int (length a0)"
    and "length a = length a0" and "length L = length a0" and "length R = length a0"
proof -
  from assms have S: "stack_inv LT (length a0) a (stack_of L R tp)" and t: "- 1 \<le> tp"
    by (simp_all add: sort_inv_def)
  then have rg: "\<forall>x\<in>set (stack_of L R tp). fst x < snd x"
    and sm: "sum_list (map (\<lambda>x. snd x - fst x + 1) (stack_of L R tp)) \<le> int (length a0)"
    by (simp_all add: stack_inv_def)
  from sizes_ge2[OF rg] sm stack_of_length[OF t, of L R]
  show "2 * (tp + 1) \<le> int (length a0)" by simp
  show "- 1 \<le> tp" by (rule t)
  show "length a = length a0" "length L = length a0" "length R = length a0"
    using assms by (simp_all add: sort_inv_def)
qed

lemma sort_inv_init:
  assumes "2 \<le> length a"
  shows "sort_inv LT a (a, (replicate (length a) 0)[0 := 0],
           (replicate (length a) 0)[0 := int (length a) - 1], 0)"
proof -
  have "stack_of ((replicate (length a) 0)[0 := 0]) ((replicate (length a) 0)[0 := int (length a) - 1]) 0
          = [(0, int (length a) - 1)]"
  proof -
    have "a \<noteq> []" using assms by auto
    then show ?thesis by (simp add: stack_of_def)
  qed
  then show ?thesis using assms by (auto simp: sort_inv_def stack_inv_def)
qed

section \<open>The relinking of sort\<close>

lemma collect_loop_run:
  assumes h: "get_head s this = Some h"
  shows "npath s (rs @ [h]) \<Longrightarrow> h \<notin> set rs \<Longrightarrow> idx + length rs \<le> length a \<Longrightarrow>
         collect_loop this (Some (hd (rs @ [h]))) a idx s =
           Some (take idx a @ map Some rs @ drop (idx + length rs) a)"
proof (induction rs arbitrary: a idx)
  case Nil
  then show ?case using h by (subst collect_loop.simps) simp
next
  case (Cons x r)
  have xh: "x \<noteq> h" using Cons.prems(2) by auto
  have nx: "get_next s (Some x) = Some (Some (hd (r @ [h])))"
    using Cons.prems(1) by (cases r) auto
  have np: "npath s (r @ [h])" using Cons.prems(1) by (cases r) auto
  have il: "idx < length a" using Cons.prems(3) by simp
  have w: "wr a (int idx) (Some x) = Some (a[idx := Some x])"
    using il by (simp add: wr_def)
  have IH: "collect_loop this (Some (hd (r @ [h]))) (a[idx := Some x]) (idx + 1) s =
           Some (take (idx + 1) (a[idx := Some x]) @ map Some r @ drop (idx + 1 + length r) (a[idx := Some x]))"
    using Cons.prems by (intro Cons.IH np) auto
  have t: "take (idx + 1) (a[idx := Some x]) = take idx a @ [Some x]"
    using il by (simp add: take_Suc_conv_app_nth)
  have d: "drop (idx + 1 + length r) (a[idx := Some x]) = drop (idx + length (x # r)) a"
    by simp
  have "collect_loop this (Some (hd ((x # r) @ [h]))) a idx s =
          collect_loop this (Some (hd (r @ [h]))) (a[idx := Some x]) (idx + 1) s"
    using xh h w nx by (subst collect_loop.simps) simp
  then show ?case unfolding IH t d by simp
qed

lemma link_obs [simp]:
  "get_val (link a b s) p = get_val s p"
  "deref_val (link a b s) p = deref_val s p"
  "get_head (link a b s) l = get_head s l"
  "get_sz (link a b s) l = get_sz s l"
  "brk (link a b s) = brk s"
  "alloc (link a b s) c = alloc s c"
  "get_next (link a b s) (Some c) =
     (if c = a then map_option (\<lambda>_. Some b) (get_next s (Some a)) else get_next s (Some c))"
  "get_prev (link a b s) (Some c) =
     (if c = b then map_option (\<lambda>_. Some a) (get_prev s (Some b)) else get_prev s (Some c))"
  by (simp_all add: link_def)

lemma link_all_obs [simp]:
  "get_val (link_all s zs) p = get_val s p"
  "deref_val (link_all s zs) p = deref_val s p"
  "get_head (link_all s zs) l = get_head s l"
  "get_sz (link_all s zs) l = get_sz s l"
  "brk (link_all s zs) = brk s"
  "alloc (link_all s zs) c = alloc s c"
  by (induction s zs rule: link_all.induct; simp)+

lemma link_all_next: "c \<notin> set (butlast zs) \<Longrightarrow> get_next (link_all s zs) (Some c) = get_next s (Some c)"
  by (induction s zs rule: link_all.induct) auto

lemma link_all_prev: "c \<notin> set (tl zs) \<Longrightarrow> get_prev (link_all s zs) (Some c) = get_prev s (Some c)"
  by (induction s zs rule: link_all.induct) auto

lemma links_link_all:
  "distinct (butlast zs) \<Longrightarrow> distinct (tl zs) \<Longrightarrow> \<forall>z\<in>set zs. alloc s z \<Longrightarrow> links (link_all s zs) zs"
proof (induction s zs rule: link_all.induct)
  case (1 s a b r)
  have a: "a \<notin> set (butlast (b # r))" using "1.prems"(1) by (simp split: if_splits)
  have b: "b \<notin> set (tl (b # r))" using "1.prems"(2) by simp
  from "1.prems"(3) have al: "alloc s a" "alloc s b" by auto
  then obtain x y where g: "get_next s (Some a) = Some x" "get_prev s (Some b) = Some y"
    using get_Some_alloc by blast
  have n: "get_next (link_all (link a b s) (b # r)) (Some a) = Some (Some b)"
    using g by (simp add: link_all_next[OF a])
  have p: "get_prev (link_all (link a b s) (b # r)) (Some b) = Some (Some a)"
    using g by (simp add: link_all_prev[OF b])
  have "links (link_all (link a b s) (b # r)) (b # r)"
    using "1.prems" by (intro "1.IH") (auto split: if_splits)
  then show ?case using n p by simp
qed simp_all

lemma link_all_snoc: "link_all s (zs @ [a, b]) = link a b (link_all s (zs @ [a]))"
proof (induction zs arbitrary: s)
  case Nil
  then show ?case by simp
next
  case (Cons x zs)
  then show ?case by (cases zs) simp_all
qed

lemma relink_loop_run:
  assumes sz: "get_sz s this = length ys" and al: "\<forall>y\<in>set ys. alloc s y"
    and k: "1 \<le> k" "k \<le> length ys"
  shows "relink_loop this (map Some ys) k s = Some (link_all s (drop (k - 1) ys))"
  using assms
proof (induction "length ys - k" arbitrary: k s)
  case 0
  then have e: "k = length ys" by simp
  have "drop (length ys - 1) ys = [last ys]"
    using 0 e by (cases ys rule: rev_cases) auto
  then show ?case using 0 e by (subst relink_loop.simps) simp
next
  case (Suc d)
  then have kl: "k < length ys" by simp
  define p where "p = ys ! (k - 1)"
  define q where "q = ys ! k"
  have r1: "rd (map Some ys) (int k - 1) = Some (Some p)"
    using kl Suc.prems(3) by (simp add: rd_def p_def nat_diff_distrib')
  have r2: "rd (map Some ys) (int k) = Some (Some q)"
    using kl by (simp add: rd_def q_def)
  have pq: "alloc s p" "alloc s q" using Suc.prems(2) kl Suc.prems(3) by (auto simp: p_def q_def)
  have dr: "drop (k - 1) ys = p # q # drop (k + 1) ys"
    using kl Suc.prems(3)
    by (metis Cons_nth_drop_Suc Suc_eq_plus1 Suc_pred' less_imp_diff_less less_le_trans
        p_def q_def zero_less_one)
  have dk: "drop k ys = q # drop (k + 1) ys"
    using kl by (simp add: Cons_nth_drop_Suc q_def)
  have IH: "relink_loop this (map Some ys) (k + 1) (link p q s)
              = Some (link_all (link p q s) (drop (k + 1 - 1) ys))"
    using Suc.hyps(2) Suc.prems kl by (intro Suc.hyps(1)) auto
  have "relink_loop this (map Some ys) k s = relink_loop this (map Some ys) (k + 1) (link p q s)"
    using kl Suc.prems(1) r1 r2 pq by (subst relink_loop.simps) (simp add: link_def)
  then show ?case using IH dr dk by simp
qed

lemma to_int_small: "n < 2 ^ 31 \<Longrightarrow> to_int n = int n"
proof -
  assume "n < 2 ^ 31"
  then have a: "int n < 2 ^ 31" by (metis of_nat_less_iff of_nat_numeral of_nat_power)
  have "(int n + 2 ^ 31) mod 2 ^ 32 = int n + 2 ^ 31"
    using a by (intro mod_pos_pos_trivial) auto
  then show ?thesis by (simp add: to_int_def)
qed

lemma mset_map_Some:
  assumes "mset a = mset (map Some xs)"
  shows "a = map Some (map the a)" and "mset (map the a) = mset xs"
proof -
  have "set a = set (map Some xs)" using assms by (rule mset_eq_setD)
  then have "\<forall>x\<in>set a. x = Some (the x)" by auto
  then show "a = map Some (map the a)" by (induction a) auto
  have "mset (map the a) = image_mset the (mset a)" by simp
  also have "\<dots> = image_mset the (mset (map Some xs))" using assms by simp
  also have "\<dots> = mset xs" by (simp add: image_mset.compositionality comp_def)
  finally show "mset (map the a) = mset xs" .
qed

lemma list_sort_list:
  assumes L: "is_list s this h xs" and swo: "strict_weak_order lt" and n: "length xs \<le> 2 ^ 30"
  shows "\<exists>s' ys. list_sort lt this s = Some s' \<and> is_list s' this h ys \<and> mset ys = mset xs \<and>
           (2 \<le> length xs \<longrightarrow> sort_start this s = Some (map Some xs, (replicate (length xs) 0)[0 := 0],
              (replicate (length xs) 0)[0 := int (length xs) - 1], 0)) \<and>
           (\<forall>p. get_val s' p = get_val s p) \<and> (\<forall>p. deref_val s' p = deref_val s p) \<and>
           sorted_wrt (\<lambda>u v. \<not> lt v u) (elems s' ys) \<and>
           (\<forall>a. alloc s' a = alloc s a) \<and> same_outside (set (h # xs)) this s s' \<and> brk s' = brk s"
proof (cases "length xs \<le> 1")
  case True
  have "sorted_wrt (\<lambda>u v. \<not> lt v u) (elems s xs)"
    using True by (cases xs) (auto simp: elems_def)
  then show ?thesis using L True
    by (auto simp: list_sort_def is_list_def same_outside_refl)
next
  case False
  define N where "N = length xs"
  have N2: "2 \<le> N" using False by (simp add: N_def)
  have d: "distinct (h # xs)" and hd: "get_head s this = Some h"
    and sz: "get_sz s this = N" and hv: "get_val s (Some h) = Some None"
    and vs: "list_all (\<lambda>x. deref_val s (Some x) \<noteq> None) xs"
    and lk: "links s (h # xs @ [h])"
    using L by (simp_all add: is_list_def N_def)
  have al: "\<And>a. a \<in> set (h # xs) \<Longrightarrow> alloc s a" using is_list_alloc[OF L] by blast
  have nx: "get_next s (Some h) = Some (Some (hd (xs @ [h])))" by (rule is_list_first_next[OF L])
  have "links s ([h] @ (xs @ [h]))" using lk by simp
  then have "links s (xs @ [h])" unfolding links_append by simp
  then have np: "npath s (xs @ [h])" by (rule links_npath)
  define a0 where "a0 = map Some xs"
  have la0: "length a0 = N" by (simp add: a0_def N_def)
  have "collect_loop this (Some (hd (xs @ [h]))) (replicate N None) 0 s =
           Some (take 0 (replicate N None) @ map Some xs @ drop (0 + length xs) (replicate N None))"
    using d by (intro collect_loop_run[OF hd np]) (auto simp: N_def)
  then have col: "collect_loop this (Some (hd (xs @ [h]))) (replicate N None) 0 s = Some a0"
    by (simp add: N_def a0_def)
  have N0: "0 < N" using N2 by simp
  have wL: "wr (replicate N (0::int)) 0 0 = Some ((replicate N 0)[0 := 0])"
    using N0 by (simp add: wr_def)
  have N30: "N \<le> 2 ^ 30" using n by (simp add: N_def)
  then have N30i: "int N \<le> 2 ^ 30" by (metis of_nat_le_iff of_nat_numeral of_nat_power)
  have "N < 2 ^ 31" using N30 by simp
  then have ti: "to_int N = int N" by (rule to_int_small)
  have ok: "int_ok (int N - 1) = Some (int N - 1)" using N30i by (intro int_ok_Some) auto
  have wR: "wr (replicate N (0::int)) 0 (int N - 1) = Some ((replicate N 0)[0 := int N - 1])"
    using N0 by (simp add: wr_def)
  define LT where "LT = (\<lambda>p q. lt (the (deref_val s p)) (the (deref_val s q)))"
  have tot: "\<forall>x\<in>set a0. \<forall>y\<in>set a0. node_less lt s x y = Some (LT x y)"
  proof (intro ballI)
    fix x y assume "x \<in> set a0" "y \<in> set a0"
    then obtain x' y' where xy: "x = Some x'" "y = Some y'" "x' \<in> set xs" "y' \<in> set xs"
      by (auto simp: a0_def)
    have "\<forall>z\<in>set xs. \<exists>w. deref_val s (Some z) = Some w" using vs by (auto simp: list_all_iff)
    then obtain u v where "deref_val s (Some x') = Some u" "deref_val s (Some y') = Some v"
      using xy(3,4) by blast
    then show "node_less lt s x y = Some (LT x y)" using xy by (simp add: node_less_def LT_def)
  qed
  have as: "\<And>x y. LT x y \<Longrightarrow> \<not> LT y x"
    using swo unfolding strict_weak_order_def LT_def by blast
  have nt: "\<And>x y z. \<not> LT x y \<Longrightarrow> \<not> LT y z \<Longrightarrow> \<not> LT x z"
    using swo unfolding strict_weak_order_def LT_def by blast
  have I0: "sort_inv LT a0 (a0, (replicate (length a0) 0)[0 := 0],
           (replicate (length a0) 0)[0 := int (length a0) - 1], 0)"
    using N2 la0 by (intro sort_inv_init) simp
  have "\<exists>a'. sort_loop (node_less lt s) (a0, (replicate (length a0) 0)[0 := 0],
           (replicate (length a0) 0)[0 := int (length a0) - 1], 0) = Some a' \<and>
           length a' = length a0 \<and> mset a' = mset a0 \<and>
           (\<forall>p q. 0 \<le> p \<and> p < q \<and> q < int (length a0) \<longrightarrow> \<not> LT (a' ! nat q) (a' ! nat p))"
  proof (rule sort_loop_run[where LT=LT, OF tot _ _ _ I0])
    show "\<And>x y. LT x y \<Longrightarrow> \<not> LT y x" by (rule as)
    show "\<And>x y z. \<not> LT x y \<Longrightarrow> \<not> LT y z \<Longrightarrow> \<not> LT x z" by (rule nt)
    show "int (length a0) \<le> 2 ^ 30" using N30i la0 by simp
  qed
  then obtain a' where sl: "sort_loop (node_less lt s) (a0, (replicate N 0)[0 := 0],
           (replicate N 0)[0 := int N - 1], 0) = Some a'"
    and la': "length a' = N" and ms: "mset a' = mset (map Some xs)"
    and srt: "\<forall>p q. 0 \<le> p \<and> p < q \<and> q < int N \<longrightarrow> \<not> LT (a' ! nat q) (a' ! nat p)"
    unfolding la0 a0_def[symmetric] by blast
  define ys where "ys = map the a'"
  have a': "a' = map Some ys" and mys: "mset ys = mset xs"
    using mset_map_Some[OF ms] by (simp_all add: ys_def)
  have lys: "length ys = N" using la' by (simp add: ys_def)
  have sys: "set ys = set xs" using mys by (rule mset_eq_setD)
  have dys: "distinct ys" using mys d by (metis distinct.simps(2) mset_eq_imp_distinct_iff)
  have ne: "ys \<noteq> []" using lys N0 by auto
  then obtain y0 r where yr: "ys = y0 # r" by (cases ys) auto
  have r0: "rd a' 0 = Some (Some y0)" using a' yr by (simp add: rd_def)
  have rl: "rd a' (int N - 1) = Some (Some (last ys))"
    using la' N0 ne unfolding a' by (simp add: rd_def last_conv_nth nat_diff_distrib' lys)
  have alh: "alloc s h" using al by simp
  have aly: "\<forall>y\<in>set ys. alloc s y" using al sys by auto
  then have aly0: "alloc s y0" "alloc s (last ys)" using yr ne by auto
  define s2 where "s2 = link h y0 s"
  have rel: "relink_loop this (map Some ys) 1 s2 = Some (link_all s2 (drop (1 - 1) ys))"
    using sz aly lys N0 by (intro relink_loop_run) (auto simp: s2_def)
  define s3 where "s3 = link_all s2 ys"
  have rel': "relink_loop this a' (Suc 0) s2 = Some s3" using rel by (simp add: a' s3_def)
  have o3: "get_sz s3 this = N" "get_head s3 this = Some h" "alloc s3 (last ys)" "alloc s3 h"
    using sz hd alh aly0 by (simp_all add: s3_def s2_def)
  define s4 where "s4 = link (last ys) h s3"
  have start: "sort_start this s = Some (a0, (replicate N 0)[0 := 0], (replicate N 0)[0 := int N - 1], 0)"
    by (simp add: sort_start_def sz hd nx col wL ti ok wR)
  have run: "list_sort lt this s = Some s4"
    using N2 alh aly0
    by (simp add: list_sort_def sz hd start sl r0 link_def[symmetric]
        s2_def[symmetric] rel' o3 rl s4_def)
  have "h # ys @ [h] = (h # butlast ys) @ [last ys, h]" using ne by simp
  then have "link_all s (h # ys @ [h]) = link (last ys) h (link_all s ((h # butlast ys) @ [last ys]))"
    by (simp only: link_all_snoc)
  also have "(h # butlast ys) @ [last ys] = h # ys" using ne by simp
  also have "link_all s (h # ys) = s3" by (simp add: yr s3_def s2_def)
  finally have s4: "s4 = link_all s (h # ys @ [h])" by (simp add: s4_def)
  have dh: "distinct (h # ys)" using d dys sys by auto
  have lk': "links s4 (h # ys @ [h])"
    unfolding s4 using dh alh aly by (intro links_link_all) (auto simp: butlast_append)
  have il: "is_list s4 this h ys"
    using hd sz lys dh hv vs sys lk' by (simp add: is_list_def s4 list_all_iff)
  have so: "same_outside (set (h # xs)) this s s4"
    unfolding same_outside_def s4 using sys
    by (auto simp: butlast_append intro!: link_all_next link_all_prev)
  have "sorted_wrt (\<lambda>u v. \<not> lt v u) (elems s4 ys)"
    unfolding sorted_wrt_iff_nth_less
  proof (intro allI impI)
    fix i j assume ij: "i < j" "j < length (elems s4 ys)"
    then have j: "j < N" by (simp add: elems_def lys)
    then have "\<not> LT (a' ! nat (int j)) (a' ! nat (int i))" using srt ij by (intro srt[rule_format]) auto
    then show "\<not> lt (elems s4 ys ! j) (elems s4 ys ! i)"
      using ij j lys by (simp add: a' LT_def elems_def value_at_def s4)
  qed
  moreover have "sort_start this s = Some (map Some xs, (replicate (length xs) 0)[0 := 0],
              (replicate (length xs) 0)[0 := int (length xs) - 1], 0)"
    using start by (simp add: a0_def N_def)
  ultimately show ?thesis using run il mys so by (auto simp: s4)
qed

section \<open>Facts about the examples for sort\<close>

lemma ex_sort_list: "is_list ex_sort 7 30 [31, 32, 33, 34, 35]"
  by (simp add: is_list_def ex_sort_def ex_defs)







lemma ex_sort2_list: "is_list ex_sort2 8 40 [41, 42, 43, 44, 45, 46]"
  by (simp add: is_list_def ex_sort2_def ex_defs)

lemma ex_sort_deref:
  "deref_val ex_sort (Some 31) = Some 3" "deref_val ex_sort (Some 32) = Some 1"
  "deref_val ex_sort (Some 33) = Some 2" "deref_val ex_sort (Some 34) = Some 5"
  "deref_val ex_sort (Some 35) = Some 4"
  by (simp_all add: ex_sort_def ex_defs)

lemma ex_sort2_deref:
  "deref_val ex_sort2 (Some 41) = Some 1" "deref_val ex_sort2 (Some 42) = Some 2"
  "deref_val ex_sort2 (Some 43) = Some 5" "deref_val ex_sort2 (Some 44) = Some 3"
  "deref_val ex_sort2 (Some 45) = Some 4" "deref_val ex_sort2 (Some 46) = Some 6"
  by (simp_all add: ex_sort2_def ex_defs)

lemma ex_sort_start:
  "sort_start 7 ex_sort =
     Some ([Some 31, Some 32, Some 33, Some 34, Some 35], [0, 0, 0, 0, 0], [4, 0, 0, 0, 0], 0)"
proof -
  have "length [31, 32, 33, 34, 35::addr] \<le> 2 ^ 30" by simp
  from list_sort_list[OF ex_sort_list swo_int this] show ?thesis
    by (auto simp: numeral_eq_Suc)
qed

lemma ex_sort2_start:
  "sort_start 8 ex_sort2 =
     Some ([Some 41, Some 42, Some 43, Some 44, Some 45, Some 46], [0, 0, 0, 0, 0, 0],
           [5, 0, 0, 0, 0, 0], 0)"
proof -
  have "length [41, 42, 43, 44, 45, 46::addr] \<le> 2 ^ 30" by simp
  from list_sort_list[OF ex_sort2_list swo_int this] show ?thesis
    by (auto simp: numeral_eq_Suc)
qed

lemma ex_sort_round:
  "sort_step (node_less (<) ex_sort)
     ([Some 31, Some 32, Some 33, Some 34, Some 35], [0, 0, 0, 0, 0], [4, 0, 0, 0, 0], 0) =
   Some ([Some 33, Some 32, Some 31, Some 34, Some 35], [0, 2, 0, 0, 0], [1, 4, 0, 0, 0], 1)"
  by (simp add: sort_step_def partition_loop.simps scan_up.simps scan_down.simps rd_def wr_def
      int_ok_def push_def node_less_def ex_sort_deref)

lemma ex_sort2_round:
  "sort_step (node_less (<) ex_sort2)
     ([Some 41, Some 42, Some 43, Some 44, Some 45, Some 46], [0, 0, 0, 0, 0, 0],
      [5, 0, 0, 0, 0, 0], 0) =
   Some ([Some 41, Some 42, Some 45, Some 44, Some 43, Some 46], [0, 4, 0, 0, 0, 0],
      [3, 5, 0, 0, 0, 0], 1)"
  by (simp add: sort_step_def partition_loop.simps scan_up.simps scan_down.simps rd_def wr_def
      int_ok_def push_def node_less_def ex_sort2_deref)

section \<open>Construction, clearing and copying\<close>











lemma ex_stale_ok: "store_ok ex_stale"
  by (auto simp: store_ok_def ex_stale_def ex_defs map_add_def split: option.splits if_splits)




section \<open>Stepping back from the end\<close>

text \<open>
  C10. On a non-empty list the end iterator (at the sentinel) steps back without an
  error and then refers to the last element, for \<^verbatim>\<open>iterator\<close> and \<^verbatim>\<open>const_iterator\<close>,
  prefix and postfix; dereferencing it or stepping it forward throws
  \<^verbatim>\<open>invalid_iterator\<close>.
\<close>

theorem end_steps_back:
  assumes "is_list s this h xs" and "xs \<noteq> []"
  shows "iterator_pre_dec s (list_end this s) =
           Some (Inr \<lparr>owner = Some this, ptr = Some (last xs)\<rparr>, \<lparr>owner = Some this, ptr = Some (last xs)\<rparr>)
       \<and> iterator_post_dec s (list_end this s) =
           Some (Inr (list_end this s), \<lparr>owner = Some this, ptr = Some (last xs)\<rparr>)
       \<and> const_iterator_pre_dec s (list_cend this s) =
           Some (Inr \<lparr>owner = Some this, ptr = Some (last xs)\<rparr>, \<lparr>owner = Some this, ptr = Some (last xs)\<rparr>)
       \<and> const_iterator_post_dec s (list_cend this s) =
           Some (Inr (list_cend this s), \<lparr>owner = Some this, ptr = Some (last xs)\<rparr>)
       \<and> iterator_deref s (list_end this s) = Some (Inl invalid_iterator, list_end this s)
       \<and> iterator_pre_inc s (list_end this s) = Some (Inl invalid_iterator, list_end this s)
       \<and> iterator_post_inc s (list_end this s) = Some (Inl invalid_iterator, list_end this s)
       \<and> const_iterator_deref s (list_cend this s) = Some (Inl invalid_iterator, list_cend this s)
       \<and> const_iterator_pre_inc s (list_cend this s) = Some (Inl invalid_iterator, list_cend this s)
       \<and> const_iterator_post_inc s (list_cend this s) = Some (Inl invalid_iterator, list_cend this s)"
proof -
  have hd: "get_head s this = Some h" and sz: "get_sz s this \<noteq> 0"
    using assms by (simp_all add: is_list_def)
  have pv: "get_prev s (Some h) = Some (Some (last xs))"
    using is_list_last_prev[OF assms(1)] assms(2) by simp
  have ne: "last xs \<noteq> h"
    using assms by (auto simp: is_list_def)
  show ?thesis
    using hd sz pv ne
    by (simp add: iterator_pre_dec_def iterator_post_dec_def const_iterator_pre_dec_def
        const_iterator_post_dec_def iterator_deref_def iterator_pre_inc_def iterator_post_inc_def
        const_iterator_deref_def const_iterator_pre_inc_def const_iterator_post_inc_def
        list_end_def list_cend_def)
qed

theorem end_steps_back_witness:
  "is_list ex123 0 0 [1, 2, 3] \<and> [1, 2, 3] \<noteq> ([]::addr list) \<and>
   iterator_pre_dec ex123 (list_end 0 ex123) =
     Some (Inr \<lparr>owner = Some 0, ptr = Some 3\<rparr>, \<lparr>owner = Some 0, ptr = Some 3\<rparr>) \<and>
   const_iterator_post_dec ex123 (list_cend 0 ex123) =
     Some (Inr (list_cend 0 ex123), \<lparr>owner = Some 0, ptr = Some 3\<rparr>) \<and>
   iterator_deref ex123 (list_end 0 ex123) = Some (Inl invalid_iterator, list_end 0 ex123)"
proof -
  have h: "is_list ex123 0 0 [1, 2, 3]"
    by (simp add: is_list_def ex123_def add_ring_def empty_store_def ring_def get_head_def
        get_sz_def get_val_def get_next_def get_prev_def get_node_def deref_val_def)
  have n: "[1, 2, 3] \<noteq> ([]::addr list)" by simp
  show ?thesis using end_steps_back[OF h n] h by simp
qed

section \<open>erase\<close>

text \<open>
  C4, as stated, does not hold: the two checks let through an iterator whose owner is
  this list while its node sits in another list's chain (an iterator taken before
  \<^verbatim>\<open>merge\<close> moved the node). On the store below both lists are well formed and the
  checks pass; \<^verbatim>\<open>erase\<close> then unlinks a node of the other list, returns a position at
  the other list's sentinel, which is not \<^verbatim>\<open>end()\<close> of this list, and leaves this list
  with size 0 and one element.
\<close>

theorem erase_stale_counterexample:
  "is_list ex_stale 5 10 [11, 21] \<and> is_list ex_stale 6 20 [22] \<and>
   get_sz ex_stale 6 \<noteq> 0 \<and> owner ex_stale_it = Some 6 \<and> ptr ex_stale_it \<noteq> None \<and>
   ptr ex_stale_it \<noteq> get_head ex_stale 6 \<and>
   list_erase 6 ex_stale_it ex_stale \<noteq> None \<and>
   fst (the (list_erase 6 ex_stale_it ex_stale)) = Inr \<lparr>owner = Some 6, ptr = Some 10\<rparr> \<and>
   \<lparr>owner = Some 6, ptr = Some 10\<rparr> \<noteq> list_end 6 (snd (the (list_erase 6 ex_stale_it ex_stale))) \<and>
   get_head (snd (the (list_erase 6 ex_stale_it ex_stale))) 5 = Some 10 \<and>
   get_sz (snd (the (list_erase 6 ex_stale_it ex_stale))) 6 = 0 \<and>
   get_next (snd (the (list_erase 6 ex_stale_it ex_stale))) (Some 20) = Some (Some 22) \<and>
   alloc (snd (the (list_erase 6 ex_stale_it ex_stale))) 22"
  unfolding ex_stale_erase
  by (simp add: ex_stale_lists ex_stale_obs list_end_def ex_stale_it_def)


text \<open>
  C4, amended. \<^verbatim>\<open>erase(pos)\<close> throws \<^verbatim>\<open>container_is_empty\<close> exactly when the size is 0,
  and then \<^verbatim>\<open>invalid_iterator\<close> exactly when \<open>pos\<close> is owned by another list (or by none),
  is null, or is at the sentinel; in both cases the store is as before. When \<open>pos\<close> is
  at an element node \<open>p\<close> of this list, the node is unlinked and freed, the size goes
  down by one, the other elements keep their order and values, and the iterator returned
  is at the node that followed \<open>p\<close>, which is \<^verbatim>\<open>end()\<close> when \<open>p\<close> was the last element.
\<close>

theorem erase_spec:
  "(list_erase this pos s = Some (Inl container_is_empty, s') \<longleftrightarrow> get_sz s this = 0 \<and> s' = s) \<and>
   (list_erase this pos s = Some (Inl invalid_iterator, s') \<longleftrightarrow>
      get_sz s this \<noteq> 0 \<and>
      (owner pos \<noteq> Some this \<or> ptr pos = None \<or> ptr pos = get_head s this) \<and> s' = s) \<and>
   (is_list s this h (ys @ p # zs) \<longrightarrow>
      (\<exists>s''. list_erase this \<lparr>owner = Some this, ptr = Some p\<rparr> s =
                Some (Inr \<lparr>owner = Some this, ptr = Some (hd (zs @ [h]))\<rparr>, s'') \<and>
             is_list s'' this h (ys @ zs) \<and>
             get_sz s'' this = get_sz s this - 1 \<and>
             elems s'' (ys @ zs) = elems s (ys @ zs) \<and>
             \<not> alloc s'' p \<and>
             (zs = [] \<longrightarrow> \<lparr>owner = Some this, ptr = Some (hd (zs @ [h]))\<rparr> = list_end this s'')))"
proof (intro conjI impI)
  show "list_erase this pos s = Some (Inl container_is_empty, s') \<longleftrightarrow> get_sz s this = 0 \<and> s' = s"
    by (auto simp: list_erase_throws)
  show "list_erase this pos s = Some (Inl invalid_iterator, s') \<longleftrightarrow>
      get_sz s this \<noteq> 0 \<and>
      (owner pos \<noteq> Some this \<or> ptr pos = None \<or> ptr pos = get_head s this) \<and> s' = s"
    by (auto simp: list_erase_throws)
next
  assume l: "is_list s this h (ys @ p # zs)"
  then obtain s'' where e: "list_erase this \<lparr>owner = Some this, ptr = Some p\<rparr> s =
           Some (Inr \<lparr>owner = Some this, ptr = Some (hd (zs @ [h]))\<rparr>, s'')"
    and l': "is_list s'' this h (ys @ zs)" and na: "\<not> alloc s'' p"
    and v: "\<forall>a. a \<noteq> p \<longrightarrow> get_val s'' (Some a) = get_val s (Some a)"
    using list_erase_list by blast
  have "p \<notin> set (ys @ zs)" using l by (auto simp: is_list_def)
  then have el: "elems s'' (ys @ zs) = elems s (ys @ zs)"
    using v by (intro elems_same) auto
  have szs: "get_sz s'' this = get_sz s this - 1"
    using l l' by (simp add: is_list_def)
  have "zs = [] \<longrightarrow> \<lparr>owner = Some this, ptr = Some (hd (zs @ [h]))\<rparr> = list_end this s''"
    using l' by (simp add: list_end_def is_list_def)
  then show "\<exists>s''. list_erase this \<lparr>owner = Some this, ptr = Some p\<rparr> s =
                Some (Inr \<lparr>owner = Some this, ptr = Some (hd (zs @ [h]))\<rparr>, s'') \<and>
             is_list s'' this h (ys @ zs) \<and>
             get_sz s'' this = get_sz s this - 1 \<and>
             elems s'' (ys @ zs) = elems s (ys @ zs) \<and>
             \<not> alloc s'' p \<and>
             (zs = [] \<longrightarrow> \<lparr>owner = Some this, ptr = Some (hd (zs @ [h]))\<rparr> = list_end this s'')"
    using e l' na el szs by blast
qed

theorem erase_spec_witness:
  "is_list ex123 0 0 ([1] @ 2 # [3]) \<and>
   (\<exists>s''. list_erase 0 \<lparr>owner = Some 0, ptr = Some 2\<rparr> ex123 =
             Some (Inr \<lparr>owner = Some 0, ptr = Some 3\<rparr>, s'') \<and>
          is_list s'' 0 0 [1, 3] \<and> get_sz s'' 0 = 2 \<and> elems s'' [1, 3] = [10, 30]) \<and>
   list_erase 0 (list_end 0 ex123) ex123 = Some (Inl invalid_iterator, ex123)"
proof -
  have h: "is_list ex123 0 0 ([1] @ 2 # [3])"
    by (simp add: is_list_def ex123_def add_ring_def empty_store_def ring_def get_head_def
        get_sz_def get_val_def get_next_def get_prev_def get_node_def deref_val_def)
  have sz: "get_sz ex123 0 = 3"
    by (simp add: ex123_def add_ring_def get_sz_def)
  have el: "elems ex123 [1, 3] = [10, 30]"
    by (simp add: elems_def value_at_def deref_val_def get_val_def get_node_def ex123_def
        add_ring_def empty_store_def ring_def)
  note E = erase_spec[of 0 "list_end 0 ex123" ex123 ex123 0 "[1]" 2 "[3]"]
  have t: "list_erase 0 (list_end 0 ex123) ex123 = Some (Inl invalid_iterator, ex123)"
    by (rule iffD2[OF E[THEN conjunct2, THEN conjunct1]])
       (simp add: sz list_end_def)
  obtain s'' where "list_erase 0 \<lparr>owner = Some 0, ptr = Some 2\<rparr> ex123 =
             Some (Inr \<lparr>owner = Some 0, ptr = Some (hd ([3] @ [0]))\<rparr>, s'')"
    and "is_list s'' 0 0 ([1] @ [3])" and "get_sz s'' 0 = get_sz ex123 0 - 1"
    and "elems s'' ([1] @ [3]) = elems ex123 ([1] @ [3])"
    using E[THEN conjunct2, THEN conjunct2, THEN mp, OF h] by blast
  then have "list_erase 0 \<lparr>owner = Some 0, ptr = Some 2\<rparr> ex123 =
             Some (Inr \<lparr>owner = Some 0, ptr = Some 3\<rparr>, s'') \<and>
          is_list s'' 0 0 [1, 3] \<and> get_sz s'' 0 = 2 \<and> elems s'' [1, 3] = [10, 30]"
    using sz el by simp
  then show ?thesis using h t by blast
qed

section \<open>Failed operations\<close>

text \<open>
  C5. Each operation that can throw makes its checks before it writes: when \<^verbatim>\<open>front\<close>,
  \<^verbatim>\<open>back\<close>, \<^verbatim>\<open>insert\<close>, \<^verbatim>\<open>erase\<close>, \<^verbatim>\<open>pop_front\<close> or \<^verbatim>\<open>pop_back\<close> ends in an error,
  the store at the throw is the store before the call (so every list, its size and
  every node an iterator refers to are as before), and when an iterator step or
  dereference ends in an error, the iterator object is as before; the iterator
  operators never write to the store.
\<close>

theorem failed_operation_changes_nothing:
  "(list_front this s = Some (Inl e, s') \<longrightarrow> s' = s) \<and>
   (list_back this s = Some (Inl e, s') \<longrightarrow> s' = s) \<and>
   (list_insert this pos v s = Some (Inl e, s') \<longrightarrow> s' = s) \<and>
   (list_erase this pos s = Some (Inl e, s') \<longrightarrow> s' = s) \<and>
   (list_pop_front this s = Some (Inl e, s') \<longrightarrow> s' = s) \<and>
   (list_pop_back this s = Some (Inl e, s') \<longrightarrow> s' = s) \<and>
   (iterator_pre_inc s it = Some (Inl e, it') \<longrightarrow> it' = it) \<and>
   (iterator_post_inc s it = Some (Inl e, it') \<longrightarrow> it' = it) \<and>
   (iterator_pre_dec s it = Some (Inl e, it') \<longrightarrow> it' = it) \<and>
   (iterator_post_dec s it = Some (Inl e, it') \<longrightarrow> it' = it) \<and>
   (iterator_deref s it = Some (Inl e, it') \<longrightarrow> it' = it) \<and>
   (iterator_arrow s it = Some (Inl e, it') \<longrightarrow> it' = it) \<and>
   (const_iterator_pre_inc s it = Some (Inl e, it') \<longrightarrow> it' = it) \<and>
   (const_iterator_post_inc s it = Some (Inl e, it') \<longrightarrow> it' = it) \<and>
   (const_iterator_pre_dec s it = Some (Inl e, it') \<longrightarrow> it' = it) \<and>
   (const_iterator_post_dec s it = Some (Inl e, it') \<longrightarrow> it' = it) \<and>
   (const_iterator_deref s it = Some (Inl e, it') \<longrightarrow> it' = it) \<and>
   (const_iterator_arrow s it = Some (Inl e, it') \<longrightarrow> it' = it)"
  by (auto dest: list_front_back_throws list_pop_throws iterator_throws const_iterator_throws
      simp: list_insert_throws list_erase_throws)

theorem failed_operation_changes_nothing_witness:
  "list_front 0 ex_empty = Some (Inl container_is_empty, ex_empty) \<and>
   list_back 0 ex_empty = Some (Inl container_is_empty, ex_empty) \<and>
   list_insert 0 \<lparr>owner = Some 1, ptr = Some 0\<rparr> 5 ex_empty = Some (Inl invalid_iterator, ex_empty) \<and>
   list_erase 0 (list_end 0 ex_empty) ex_empty = Some (Inl container_is_empty, ex_empty) \<and>
   list_pop_front 0 ex_empty = Some (Inl container_is_empty, ex_empty) \<and>
   list_pop_back 0 ex_empty = Some (Inl container_is_empty, ex_empty) \<and>
   iterator_pre_inc ex_empty (list_end 0 ex_empty) = Some (Inl invalid_iterator, list_end 0 ex_empty) \<and>
   iterator_post_inc ex_empty (list_end 0 ex_empty) = Some (Inl invalid_iterator, list_end 0 ex_empty) \<and>
   iterator_pre_dec ex_empty (list_end 0 ex_empty) = Some (Inl invalid_iterator, list_end 0 ex_empty) \<and>
   iterator_post_dec ex_empty (list_end 0 ex_empty) = Some (Inl invalid_iterator, list_end 0 ex_empty) \<and>
   iterator_deref ex_empty (list_end 0 ex_empty) = Some (Inl invalid_iterator, list_end 0 ex_empty) \<and>
   iterator_arrow ex_empty (list_end 0 ex_empty) = Some (Inl invalid_iterator, list_end 0 ex_empty) \<and>
   const_iterator_pre_inc ex_empty (list_cend 0 ex_empty) = Some (Inl invalid_iterator, list_cend 0 ex_empty) \<and>
   const_iterator_post_inc ex_empty (list_cend 0 ex_empty) = Some (Inl invalid_iterator, list_cend 0 ex_empty) \<and>
   const_iterator_pre_dec ex_empty (list_cend 0 ex_empty) = Some (Inl invalid_iterator, list_cend 0 ex_empty) \<and>
   const_iterator_post_dec ex_empty (list_cend 0 ex_empty) = Some (Inl invalid_iterator, list_cend 0 ex_empty) \<and>
   const_iterator_deref ex_empty (list_cend 0 ex_empty) = Some (Inl invalid_iterator, list_cend 0 ex_empty) \<and>
   const_iterator_arrow ex_empty (list_cend 0 ex_empty) = Some (Inl invalid_iterator, list_cend 0 ex_empty)"
proof -
  have sz: "get_sz ex_empty 0 = 0" and hd: "get_head ex_empty 0 = Some 0"
    by (simp_all add: ex_empty_def add_ring_def get_sz_def get_head_def)
  have a: "list_front 0 ex_empty = Some (Inl container_is_empty, ex_empty)"
          "list_back 0 ex_empty = Some (Inl container_is_empty, ex_empty)"
          "list_insert 0 \<lparr>owner = Some 1, ptr = Some 0\<rparr> 5 ex_empty = Some (Inl invalid_iterator, ex_empty)"
          "list_erase 0 (list_end 0 ex_empty) ex_empty = Some (Inl container_is_empty, ex_empty)"
          "list_pop_front 0 ex_empty = Some (Inl container_is_empty, ex_empty)"
          "list_pop_back 0 ex_empty = Some (Inl container_is_empty, ex_empty)"
    using sz by (simp_all add: list_front_def list_back_def list_insert_def list_erase_def
        list_pop_front_def list_pop_back_def)
  have b: "iterator_pre_inc ex_empty (list_end 0 ex_empty) = Some (Inl invalid_iterator, list_end 0 ex_empty)"
          "iterator_post_inc ex_empty (list_end 0 ex_empty) = Some (Inl invalid_iterator, list_end 0 ex_empty)"
          "iterator_pre_dec ex_empty (list_end 0 ex_empty) = Some (Inl invalid_iterator, list_end 0 ex_empty)"
          "iterator_post_dec ex_empty (list_end 0 ex_empty) = Some (Inl invalid_iterator, list_end 0 ex_empty)"
          "iterator_deref ex_empty (list_end 0 ex_empty) = Some (Inl invalid_iterator, list_end 0 ex_empty)"
          "iterator_arrow ex_empty (list_end 0 ex_empty) = Some (Inl invalid_iterator, list_end 0 ex_empty)"
    using sz hd by (simp_all add: iterator_pre_inc_def iterator_post_inc_def iterator_pre_dec_def
        iterator_post_dec_def iterator_deref_def iterator_arrow_def list_end_def)
  have c: "const_iterator_pre_inc ex_empty (list_cend 0 ex_empty) = Some (Inl invalid_iterator, list_cend 0 ex_empty)"
          "const_iterator_post_inc ex_empty (list_cend 0 ex_empty) = Some (Inl invalid_iterator, list_cend 0 ex_empty)"
          "const_iterator_pre_dec ex_empty (list_cend 0 ex_empty) = Some (Inl invalid_iterator, list_cend 0 ex_empty)"
          "const_iterator_post_dec ex_empty (list_cend 0 ex_empty) = Some (Inl invalid_iterator, list_cend 0 ex_empty)"
          "const_iterator_deref ex_empty (list_cend 0 ex_empty) = Some (Inl invalid_iterator, list_cend 0 ex_empty)"
          "const_iterator_arrow ex_empty (list_cend 0 ex_empty) = Some (Inl invalid_iterator, list_cend 0 ex_empty)"
    using sz hd by (simp_all add: const_iterator_pre_inc_def const_iterator_post_inc_def
        const_iterator_pre_dec_def const_iterator_post_dec_def const_iterator_deref_def
        const_iterator_arrow_def list_cend_def)
  note T = failed_operation_changes_nothing[where this=0 and s=ex_empty and v="5::int"
      and e=container_is_empty and s'=ex_empty and pos="list_end 0 ex_empty"
      and it="list_end 0 ex_empty" and it'="list_end 0 ex_empty"]
  show ?thesis
    using T by (simp only: a b c simp_thms)
qed

section \<open>reverse\<close>

text \<open>
  C7. \<^verbatim>\<open>reverse()\<close> on a well-formed list returns, and the list then holds the same
  nodes in reversed traversal order, with their values; a second \<^verbatim>\<open>reverse()\<close> gives
  back the original traversal order.
\<close>

theorem reverse_involution:
  assumes "is_list s this h xs"
  shows "\<exists>s' s''. list_reverse this s = Some s' \<and> is_list s' this h (rev xs) \<and>
           elems s' (rev xs) = rev (elems s xs) \<and>
           list_reverse this s' = Some s'' \<and> is_list s'' this h xs \<and>
           elems s'' xs = elems s xs"
proof -
  obtain s' where r1: "list_reverse this s = Some s'" and l1: "is_list s' this h (rev xs)"
    and v1: "\<forall>p. get_val s' p = get_val s p"
    using list_reverse_list[OF assms] by blast
  obtain s'' where r2: "list_reverse this s' = Some s''" and l2: "is_list s'' this h (rev (rev xs))"
    and v2: "\<forall>p. get_val s'' p = get_val s' p"
    using list_reverse_list[OF l1] by blast
  have e1: "elems s' (rev xs) = rev (elems s xs)"
    using v1 by (simp add: elems_def rev_map value_at_def deref_val_def)
  have e2: "elems s'' xs = elems s xs"
    using v1 v2 by (simp add: elems_def value_at_def deref_val_def)
  show ?thesis using r1 l1 e1 r2 l2 e2 by auto
qed

theorem reverse_involution_witness:
  "is_list ex123 0 0 [1, 2, 3] \<and>
   (\<exists>s' s''. list_reverse 0 ex123 = Some s' \<and> is_list s' 0 0 [3, 2, 1] \<and>
      elems s' [3, 2, 1] = [30, 20, 10] \<and>
      list_reverse 0 s' = Some s'' \<and> is_list s'' 0 0 [1, 2, 3] \<and>
      elems s'' [1, 2, 3] = [10, 20, 30])"
  using reverse_involution[OF ex123_list] ex123_list ex123_elems by simp

section \<open>unique\<close>

text \<open>
  C8. \<^verbatim>\<open>unique()\<close> on a well-formed list returns; the nodes left are those that
  \<open>uniq_adj\<close> keeps under the element type's equality, in their order and with their
  values. With equality itself as \<^verbatim>\<open>operator==\<close> the element sequence afterwards is
  \<open>remdups_adj\<close> of the one before: the first element of every maximal run of equal
  neighbours stays, the rest of the run goes, and equal elements that are not neighbours
  all stay.
\<close>

theorem unique_spec:
  assumes "is_list s this h xs"
  shows "(\<exists>s'. list_unique eq this s = Some s' \<and>
            is_list s' this h (uniq_adj (\<lambda>a b. eq (value_at s a) (value_at s b)) xs) \<and>
            elems s' (uniq_adj (\<lambda>a b. eq (value_at s a) (value_at s b)) xs) =
              elems s (uniq_adj (\<lambda>a b. eq (value_at s a) (value_at s b)) xs)) \<and>
         (\<exists>s' ys. list_unique (=) this s = Some s' \<and> is_list s' this h ys \<and>
            elems s' ys = remdups_adj (elems s xs))"
proof -
  have g: "\<exists>s'. list_unique eq this s = Some s' \<and>
            is_list s' this h (uniq_adj (\<lambda>a b. eq (value_at s a) (value_at s b)) xs) \<and>
            elems s' (uniq_adj (\<lambda>a b. eq (value_at s a) (value_at s b)) xs) =
              elems s (uniq_adj (\<lambda>a b. eq (value_at s a) (value_at s b)) xs)" for eq
  proof -
    let ?ys = "uniq_adj (\<lambda>a b. eq (value_at s a) (value_at s b)) xs"
    obtain s' where u: "list_unique eq this s = Some s'" and l: "is_list s' this h ?ys"
      and v: "\<forall>a. alloc s' a \<longrightarrow> alloc s a \<and> get_val s' (Some a) = get_val s (Some a)"
      using list_unique_list[OF assms] by blast
    have "elems s' ?ys = elems s ?ys"
      by (rule elems_same) (use v is_list_alloc[OF l] in auto)
    then show ?thesis using u l by blast
  qed
  obtain s' where u: "list_unique (=) this s = Some s'"
    and l: "is_list s' this h (uniq_adj (\<lambda>a b. value_at s a = value_at s b) xs)"
    and e: "elems s' (uniq_adj (\<lambda>a b. value_at s a = value_at s b) xs) =
              elems s (uniq_adj (\<lambda>a b. value_at s a = value_at s b) xs)"
    using g[of "(=)"] by blast
  have "elems s (uniq_adj (\<lambda>a b. value_at s a = value_at s b) xs) = remdups_adj (elems s xs)"
    by (simp add: elems_def map_uniq_adj)
  then show ?thesis using g[of eq] u l e by auto
qed

theorem unique_spec_witness:
  "is_list ex_runs 0 0 [11, 12, 13, 14, 15, 16, 17] \<and>
   elems ex_runs [11, 12, 13, 14, 15, 16, 17] = [1, 1, 2, 2, 2, 3, 1] \<and>
   (\<exists>s'. list_unique (=) 0 ex_runs = Some s' \<and> is_list s' 0 0 [11, 13, 16, 17] \<and>
      elems s' [11, 13, 16, 17] = [1, 2, 3, 1])"
proof -
  have u: "uniq_adj (\<lambda>a b. value_at ex_runs a = value_at ex_runs b) [11, 12, 13, 14, 15, 16, 17] = [11, 13, 16, 17]"
    by (simp add: ex_runs_values)
  have e: "elems ex_runs [11, 12, 13, 14, 15, 16, 17] = [1, 1, 2, 2, 2, 3, 1]"
          "elems ex_runs [11, 13, 16, 17] = [1, 2, 3, 1]"
    by (simp_all add: elems_def ex_runs_values)
  show ?thesis
    using unique_spec[OF ex_runs_list, of "(=)", THEN conjunct1] ex_runs_list
    unfolding u e by simp
qed

section \<open>merge\<close>

text \<open>
  C2. Receiver and argument are two well-formed lists that share no node, each sorted
  ascending under a strict weak order. Then \<^verbatim>\<open>merge\<close> returns, and the receiver's chain is
  \<open>merge_by\<close> of the two chains: the argument's front node is taken exactly when its value
  is less than the receiver's front node's. The chain holds the nodes of both lists, with
  their values, sorted ascending, and a receiver node \<open>x\<close> comes before an argument
  node \<open>y\<close> whenever \<open>y\<close>'s value is not less than \<open>x\<close>'s, so in particular when the two are
  equal.
\<close>

theorem merge_spec:
  assumes "is_list s this h1 xs" and "is_list s other h2 ys" and "this \<noteq> other"
    and "set (h1 # xs) \<inter> set (h2 # ys) = {}"
    and "strict_weak_order lt"
    and "sorted_wrt (\<lambda>a b. \<not> lt b a) (elems s xs)"
    and "sorted_wrt (\<lambda>a b. \<not> lt b a) (elems s ys)"
  shows "\<exists>s' zs. list_merge lt this other s = Some s' \<and> is_list s' this h1 zs \<and>
     zs = merge_by (\<lambda>p q. lt (value_at s p) (value_at s q)) xs ys \<and>
     mset zs = mset xs + mset ys \<and> elems s' zs = elems s zs \<and>
     sorted_wrt (\<lambda>a b. \<not> lt b a) (elems s' zs) \<and>
     (\<forall>x\<in>set xs. \<forall>y\<in>set ys. \<not> lt (value_at s y) (value_at s x) \<longrightarrow> precedes x y zs)"
proof -
  define LT where "LT = (\<lambda>p q. lt (value_at s p) (value_at s q))"
  define zs where "zs = merge_by LT xs ys"
  have ir: "\<And>x. \<not> LT x x" and tr: "\<And>x y z. LT x y \<Longrightarrow> LT y z \<Longrightarrow> LT x z"
    and nt: "\<And>x y z. \<not> LT x y \<Longrightarrow> \<not> LT y z \<Longrightarrow> \<not> LT x z"
    using assms(5) unfolding strict_weak_order_def LT_def by blast+
  have sx: "sorted_wrt (\<lambda>a b. \<not> LT b a) xs" and sy: "sorted_wrt (\<lambda>a b. \<not> LT b a) ys"
    using assms(6,7) by (simp_all add: elems_def sorted_wrt_map LT_def)
  have sz: "sorted_wrt (\<lambda>a b. \<not> lt b a) (elems s zs)"
    using sorted_merge_by[of LT xs ys, OF ir tr nt sx sy]
    by (simp add: elems_def sorted_wrt_map LT_def zs_def)
  have st: "\<forall>x\<in>set xs. \<forall>y\<in>set ys. \<not> lt (value_at s y) (value_at s x) \<longrightarrow> precedes x y zs"
  proof (intro ballI impI)
    fix x y assume x: "x \<in> set xs" and y: "y \<in> set ys"
      and n: "\<not> lt (value_at s y) (value_at s x)"
    have "x \<notin> set ys" using x assms(4) by auto
    then show "precedes x y zs"
      unfolding zs_def using stable_merge_by[of LT x xs y ys, OF nt x y sx] n by (simp add: LT_def)
  qed
  have ms: "mset zs = mset xs + mset ys" by (simp add: zs_def mset_merge_by)
  have "\<exists>s'. list_merge lt this other s = Some s' \<and> is_list s' this h1 zs \<and>
          (\<forall>p. get_val s' p = get_val s p)"
  proof (cases "ys = []")
    case True
    then have "get_sz s other = 0" using assms(2) by (simp add: is_list_def)
    then show ?thesis using assms(1) True by (simp add: list_merge_def zs_def)
  next
    case False
    show ?thesis
      using list_merge_list[OF assms(1,2,3,4) False, of lt] by (auto simp: zs_def LT_def)
  qed
  then obtain s' where m: "list_merge lt this other s = Some s'" and l: "is_list s' this h1 zs"
    and v: "\<forall>p. get_val s' p = get_val s p"
    by blast
  have e: "elems s' zs = elems s zs" by (rule elems_same) (simp add: v)
  show ?thesis
    using m l ms e sz st unfolding zs_def LT_def by simp
qed

theorem merge_spec_witness:
  "is_list ex_merge 5 10 [11, 12, 13, 14] \<and> is_list ex_merge 6 20 [21, 22, 23] \<and>
   elems ex_merge [11, 12, 13, 14] = [1, 3, 3, 5] \<and> elems ex_merge [21, 22, 23] = [2, 3, 4] \<and>
   (\<exists>s'. list_merge (<) 5 6 ex_merge = Some s' \<and>
      is_list s' 5 10 [11, 21, 12, 13, 22, 23, 14] \<and>
      elems s' [11, 21, 12, 13, 22, 23, 14] = [1, 2, 3, 3, 3, 4, 5] \<and>
      precedes 12 22 [11, 21, 12, 13, 22, 23, 14::addr] \<and>
      precedes 13 22 [11, 21, 12, 13, 22, 23, 14::addr])"
proof -
  have e: "elems ex_merge [11, 12, 13, 14] = [1, 3, 3, 5]" "elems ex_merge [21, 22, 23] = [2, 3, 4]"
    "elems ex_merge [11, 21, 12, 13, 22, 23, 14] = [1, 2, 3, 3, 3, 4, 5]"
    by (simp_all add: elems_def ex_merge_values)
  have d: "(5::nat) \<noteq> 6" "set (10 # [11, 12, 13, 14]) \<inter> set (20 # [21, 22, 23]) = ({}::nat set)"
    by simp_all
  have s: "sorted_wrt (\<lambda>a b. \<not> b < a) (elems ex_merge [11, 12, 13, 14])"
    "sorted_wrt (\<lambda>a b. \<not> b < a) (elems ex_merge [21, 22, 23])"
    unfolding e by simp_all
  have z: "merge_by (\<lambda>p q. value_at ex_merge p < value_at ex_merge q) [11, 12, 13, 14] [21, 22, 23]
           = [11, 21, 12, 13, 22, 23, 14]"
    by (simp add: ex_merge_values)
  have p: "precedes 12 22 [11, 21, 12, 13, 22, 23, 14::nat]"
    "precedes 13 22 [11, 21, 12, 13, 22, 23, 14::nat]"
    by (simp_all add: precedes_def)
  obtain s' where "list_merge (<) 5 6 ex_merge = Some s'"
    and "is_list s' 5 10 [11, 21, 12, 13, 22, 23, 14]"
    and "elems s' [11, 21, 12, 13, 22, 23, 14] = elems ex_merge [11, 21, 12, 13, 22, 23, 14]"
    using merge_spec[OF ex_merge_lists d swo_int s] unfolding z by blast
  then show ?thesis using ex_merge_lists e p by auto
qed

text \<open>
  C9. \<^verbatim>\<open>merge\<close> returns the store as it is when the argument is the receiver itself or
  has size 0. For two well-formed lists that share no node, with a non-empty argument,
  it returns; afterwards the argument's sentinel is its own successor and predecessor,
  the argument's size is 0 and the receiver's size is the sum of the two sizes before.
\<close>

theorem merge_sizes:
  "(this = other \<or> get_sz s other = 0 \<longrightarrow> list_merge lt this other s = Some s) \<and>
   (is_list s this h1 xs \<and> is_list s other h2 ys \<and> this \<noteq> other \<and>
    set (h1 # xs) \<inter> set (h2 # ys) = {} \<and> ys \<noteq> [] \<longrightarrow>
      (\<exists>s'. list_merge lt this other s = Some s' \<and>
         get_head s' other = Some h2 \<and>
         get_next s' (Some h2) = Some (Some h2) \<and> get_prev s' (Some h2) = Some (Some h2) \<and>
         get_sz s' other = 0 \<and> is_list s' other h2 [] \<and>
         get_sz s' this = get_sz s this + get_sz s other))"
proof (intro conjI impI)
  assume "this = other \<or> get_sz s other = 0"
  then show "list_merge lt this other s = Some s" by (auto simp: list_merge_def)
next
  assume a: "is_list s this h1 xs \<and> is_list s other h2 ys \<and> this \<noteq> other \<and>
    set (h1 # xs) \<inter> set (h2 # ys) = {} \<and> ys \<noteq> []"
  then obtain s' where m: "list_merge lt this other s = Some s'"
    and l1: "is_list s' this h1 (merge_by (\<lambda>p q. lt (value_at s p) (value_at s q)) xs ys)"
    and l2: "is_list s' other h2 []"
    using list_merge_list[of s this h1 xs other h2 ys lt] by blast
  have "get_sz s' this = get_sz s this + get_sz s other"
    using l1 a by (simp add: is_list_def length_merge_by)
  moreover have "get_next s' (Some h2) = Some (Some h2)" "get_prev s' (Some h2) = Some (Some h2)"
    using is_list_first_next[OF l2] is_list_last_prev[OF l2] by simp_all
  moreover have "get_head s' other = Some h2" "get_sz s' other = 0"
    using l2 by (simp_all add: is_list_def)
  ultimately show "\<exists>s'. list_merge lt this other s = Some s' \<and>
         get_head s' other = Some h2 \<and>
         get_next s' (Some h2) = Some (Some h2) \<and> get_prev s' (Some h2) = Some (Some h2) \<and>
         get_sz s' other = 0 \<and> is_list s' other h2 [] \<and>
         get_sz s' this = get_sz s this + get_sz s other"
    using m l2 by blast
qed

theorem merge_sizes_witness:
  "list_merge (<) 5 5 ex_merge = Some ex_merge \<and>
   is_list ex_merge 5 10 [11, 12, 13, 14] \<and> is_list ex_merge 6 20 [21, 22, 23] \<and>
   (\<exists>s'. list_merge (<) 5 6 ex_merge = Some s' \<and>
      get_next s' (Some 20) = Some (Some 20) \<and> get_prev s' (Some 20) = Some (Some 20) \<and>
      get_sz s' 6 = 0 \<and> get_sz s' 5 = 7)"
proof -
  have sz: "get_sz ex_merge 5 = 4" "get_sz ex_merge 6 = 3"
    using ex_merge_lists by (simp_all add: is_list_def)
  note M = merge_sizes[of 5 5 ex_merge "(<)"]
  have a: "list_merge (<) 5 5 ex_merge = Some ex_merge"
    using M[THEN conjunct1] by simp
  have "\<exists>s'. list_merge (<) 5 6 ex_merge = Some s' \<and>
         get_head s' 6 = Some 20 \<and>
         get_next s' (Some 20) = Some (Some 20) \<and> get_prev s' (Some 20) = Some (Some 20) \<and>
         get_sz s' 6 = 0 \<and> is_list s' 6 20 [] \<and>
         get_sz s' 5 = get_sz ex_merge 5 + get_sz ex_merge 6"
    by (rule merge_sizes[of 5 6 ex_merge "(<)" 10 "[11, 12, 13, 14]" 20 "[21, 22, 23]",
          THEN conjunct2, THEN mp])
       (simp add: ex_merge_lists)
  then show ?thesis using a ex_merge_lists sz by auto
qed

section \<open>sort\<close>




section \<open>The stack of sort\<close>

text \<open>
  C3, as stated, does not hold: a round of the loop does not choose between the two
  remaining subranges by size. It pushes both, the left one first, each whenever it has
  more than one cell. On \<open>[3, 1, 2, 5, 4]\<close> the first round leaves the ranges \<open>0..1\<close>
  and \<open>2..4\<close> on the stack, the smaller one below the larger; on \<open>[1, 2, 5, 3, 4, 6]\<close>
  it leaves \<open>0..3\<close> and \<open>4..5\<close>, the larger one below the smaller.
\<close>

theorem sort_pushes_both_counterexample:
  "is_list ex_sort 7 30 [31, 32, 33, 34, 35] \<and>
   elems ex_sort [31, 32, 33, 34, 35] = [3, 1, 2, 5, 4] \<and>
   sort_start 7 ex_sort =
     Some ([Some 31, Some 32, Some 33, Some 34, Some 35], [0, 0, 0, 0, 0], [4, 0, 0, 0, 0], 0) \<and>
   sort_rounds (node_less (<) ex_sort) 1
     ([Some 31, Some 32, Some 33, Some 34, Some 35], [0, 0, 0, 0, 0], [4, 0, 0, 0, 0], 0) =
     Some ([Some 33, Some 32, Some 31, Some 34, Some 35], [0, 2, 0, 0, 0], [1, 4, 0, 0, 0], 1) \<and>
   stack_of [0, 2, 0, 0, 0] [1, 4, 0, 0, 0] 1 = [(0, 1), (2, 4)] \<and>
   is_list ex_sort2 8 40 [41, 42, 43, 44, 45, 46] \<and>
   elems ex_sort2 [41, 42, 43, 44, 45, 46] = [1, 2, 5, 3, 4, 6] \<and>
   sort_start 8 ex_sort2 =
     Some ([Some 41, Some 42, Some 43, Some 44, Some 45, Some 46], [0, 0, 0, 0, 0, 0],
           [5, 0, 0, 0, 0, 0], 0) \<and>
   sort_rounds (node_less (<) ex_sort2) 1
     ([Some 41, Some 42, Some 43, Some 44, Some 45, Some 46], [0, 0, 0, 0, 0, 0],
      [5, 0, 0, 0, 0, 0], 0) =
     Some ([Some 41, Some 42, Some 45, Some 44, Some 43, Some 46], [0, 4, 0, 0, 0, 0],
      [3, 5, 0, 0, 0, 0], 1) \<and>
   stack_of [0, 4, 0, 0, 0, 0] [3, 5, 0, 0, 0, 0] 1 = [(0, 3), (4, 5)]"
proof -
  have e: "elems ex_sort [31, 32, 33, 34, 35] = [3, 1, 2, 5, 4]"
    "elems ex_sort2 [41, 42, 43, 44, 45, 46] = [1, 2, 5, 3, 4, 6]"
    by (simp_all add: elems_def value_at_def ex_sort_deref ex_sort2_deref)
  have s: "stack_of [0, 2, 0, 0, 0] [1, 4, 0, 0, 0] 1 = [(0, 1), (2, 4)]"
    "stack_of [0, 4, 0, 0, 0, 0] [3, 5, 0, 0, 0, 0] 1 = [(0, 3), (4, 5)]"
    by (simp_all add: stack_of_def numeral_eq_Suc)
  show ?thesis
    unfolding e s
    by (simp add: ex_sort_list ex_sort2_list ex_sort_start ex_sort2_start ex_sort_round
        ex_sort2_round)
qed

text \<open>
  C3, amended. During \<^verbatim>\<open>sort()\<close> on a well-formed list of \<open>n\<close> elements,
  \<open>2 \<le> n \<le> 2\<^sup>3\<^sup>0\<close>, with a strict weak order as \<^verbatim>\<open>operator<\<close>, the loop is entered, and
  at the head of the loop after any number of rounds the three buffers have length
  \<open>n\<close> and the stack index \<open>tp\<close> satisfies \<open>- 1 \<le> tp\<close> and \<open>2 * (tp + 1) \<le> n\<close>. When the
  stack is not empty the next round has a result, so each of its reads and writes is
  within bounds; it pops the top range \<open>l..r\<close>, partitions it into \<open>l..j\<close> and \<open>i..r\<close> with
  \<open>j < i\<close>, and pushes \<open>l..j\<close> if \<open>l < j\<close> and then \<open>i..r\<close> if \<open>i < r\<close>.
\<close>

theorem sort_stack_spec:
  assumes "is_list s this h xs" and "strict_weak_order lt"
    and "2 \<le> length xs" and "length xs \<le> 2 ^ 30"
  shows "\<exists>st0. sort_start this s = Some st0 \<and>
     (\<forall>k a L R tp. sort_rounds (node_less lt s) k st0 = Some (a, L, R, tp) \<longrightarrow>
        length a = length xs \<and> length L = length xs \<and> length R = length xs \<and>
        - 1 \<le> tp \<and> 2 * (tp + 1) \<le> int (length xs) \<and>
        (0 \<le> tp \<longrightarrow>
           (\<exists>a' L' R' tp' i j.
              sort_step (node_less lt s) (a, L, R, tp) = Some (a', L', R', tp') \<and>
              partition_loop (node_less lt s) a (a ! nat ((L ! nat tp + R ! nat tp) div 2))
                (L ! nat tp) (R ! nat tp) = Some (a', i, j) \<and>
              j < i \<and>
              stack_of L' R' tp' = stack_of L R (tp - 1) @
                (if L ! nat tp < j then [(L ! nat tp, j)] else []) @
                (if i < R ! nat tp then [(i, R ! nat tp)] else []))))"
proof -
  define a0 where "a0 = map Some xs"
  define st0 where "st0 = (a0, (replicate (length a0) (0::int))[0 := 0],
              (replicate (length a0) 0)[0 := int (length a0) - 1], 0::int)"
  define LT where "LT = (\<lambda>p q. lt (the (deref_val s p)) (the (deref_val s q)))"
  have la0: "length a0 = length xs" by (simp add: a0_def)
  have start: "sort_start this s = Some st0"
    using list_sort_list[OF assms(1,2,4)] assms(3) by (auto simp: st0_def a0_def)
  have vs: "\<forall>z\<in>set xs. \<exists>w. deref_val s (Some z) = Some w"
    using assms(1) by (auto simp: is_list_def list_all_iff)
  have tot: "\<forall>x\<in>set a0. \<forall>y\<in>set a0. node_less lt s x y = Some (LT x y)"
  proof (intro ballI)
    fix x y assume "x \<in> set a0" "y \<in> set a0"
    then obtain x' y' where xy: "x = Some x'" "y = Some y'" "x' \<in> set xs" "y' \<in> set xs"
      by (auto simp: a0_def)
    then obtain u v where "deref_val s (Some x') = Some u" "deref_val s (Some y') = Some v"
      using vs by blast
    then show "node_less lt s x y = Some (LT x y)" using xy by (simp add: node_less_def LT_def)
  qed
  have as: "\<And>x y. LT x y \<Longrightarrow> \<not> LT y x"
    using assms(2) unfolding strict_weak_order_def LT_def by blast
  have nt: "\<And>x y z. \<not> LT x y \<Longrightarrow> \<not> LT y z \<Longrightarrow> \<not> LT x z"
    using assms(2) unfolding strict_weak_order_def LT_def by blast
  have n30: "int (length a0) \<le> 2 ^ 30"
    using assms(4) la0 by (metis of_nat_le_iff of_nat_numeral of_nat_power)
  have I0: "sort_inv LT a0 st0"
    unfolding st0_def using assms(3) la0 by (intro sort_inv_init) simp
  have "length a = length xs \<and> length L = length xs \<and> length R = length xs \<and>
        - 1 \<le> tp \<and> 2 * (tp + 1) \<le> int (length xs) \<and>
        (0 \<le> tp \<longrightarrow>
           (\<exists>a' L' R' tp' i j.
              sort_step (node_less lt s) (a, L, R, tp) = Some (a', L', R', tp') \<and>
              partition_loop (node_less lt s) a (a ! nat ((L ! nat tp + R ! nat tp) div 2))
                (L ! nat tp) (R ! nat tp) = Some (a', i, j) \<and>
              j < i \<and>
              stack_of L' R' tp' = stack_of L R (tp - 1) @
                (if L ! nat tp < j then [(L ! nat tp, j)] else []) @
                (if i < R ! nat tp then [(i, R ! nat tp)] else [])))"
    if k: "sort_rounds (node_less lt s) k st0 = Some (a, L, R, tp)" for k a L R tp
  proof -
    have I: "sort_inv LT a0 (a, L, R, tp)"
    proof (rule sort_rounds_inv[where LT=LT, OF tot _ _ n30 I0 k])
      show "\<And>x y. LT x y \<Longrightarrow> \<not> LT y x" by (rule as)
      show "\<And>x y z. \<not> LT x y \<Longrightarrow> \<not> LT y z \<Longrightarrow> \<not> LT x z" by (rule nt)
    qed
    note b = sort_inv_bounds[OF I]
    have "\<exists>a' L' R' tp' i j.
              sort_step (node_less lt s) (a, L, R, tp) = Some (a', L', R', tp') \<and>
              partition_loop (node_less lt s) a (a ! nat ((L ! nat tp + R ! nat tp) div 2))
                (L ! nat tp) (R ! nat tp) = Some (a', i, j) \<and>
              j < i \<and>
              stack_of L' R' tp' = stack_of L R (tp - 1) @
                (if L ! nat tp < j then [(L ! nat tp, j)] else []) @
                (if i < R ! nat tp then [(i, R ! nat tp)] else [])" if tp: "0 \<le> tp"
    proof -
      have "\<exists>a' L' R' tp' i j. sort_step (node_less lt s) (a, L, R, tp) = Some (a', L', R', tp') \<and>
           sort_inv LT a0 (a', L', R', tp') \<and>
           stack_measure (stack_of L' R' tp') < stack_measure (stack_of L R tp) \<and>
           j < i \<and>
           partition_loop (node_less lt s) a (a ! nat ((L ! nat tp + R ! nat tp) div 2)) (L ! nat tp) (R ! nat tp)
             = Some (a', i, j) \<and>
           stack_of L' R' tp' = stack_of L R (tp - 1) @
             (if L ! nat tp < j then [(L ! nat tp, j)] else []) @
             (if i < R ! nat tp then [(i, R ! nat tp)] else [])"
      proof (rule sort_step_run[where LT=LT, OF tot _ _ n30 I tp])
        show "\<And>x y. LT x y \<Longrightarrow> \<not> LT y x" by (rule as)
        show "\<And>x y z. \<not> LT x y \<Longrightarrow> \<not> LT y z \<Longrightarrow> \<not> LT x z" by (rule nt)
      qed
      then show ?thesis by blast
    qed
    then show ?thesis using b la0 by simp
  qed
  then show ?thesis using start by blast
qed

theorem sort_stack_spec_witness:
  "is_list ex_sort 7 30 [31, 32, 33, 34, 35] \<and>
   strict_weak_order ((<) :: int \<Rightarrow> int \<Rightarrow> bool) \<and>
   sort_start 7 ex_sort =
     Some ([Some 31, Some 32, Some 33, Some 34, Some 35], [0, 0, 0, 0, 0], [4, 0, 0, 0, 0], 0) \<and>
   sort_rounds (node_less (<) ex_sort) 1
     ([Some 31, Some 32, Some 33, Some 34, Some 35], [0, 0, 0, 0, 0], [4, 0, 0, 0, 0], 0) =
     Some ([Some 33, Some 32, Some 31, Some 34, Some 35], [0, 2, 0, 0, 0], [1, 4, 0, 0, 0], 1) \<and>
   2 * ((1::int) + 1) \<le> int (length [31, 32, 33, 34, 35::addr]) \<and>
   (\<exists>a' L' R' tp' i j.
      sort_step (node_less (<) ex_sort)
        ([Some 33, Some 32, Some 31, Some 34, Some 35], [0, 2, 0, 0, 0], [1, 4, 0, 0, 0], 1) =
        Some (a', L', R', tp') \<and>
      partition_loop (node_less (<) ex_sort) [Some 33, Some 32, Some 31, Some 34, Some 35]
        (Some 34) 2 4 = Some (a', i, j) \<and>
      j < i \<and>
      stack_of L' R' tp' = [(0, 1)] @ (if 2 < j then [(2, j)] else []) @
        (if i < 4 then [(i, 4)] else []))"
proof -
  have n: "2 \<le> length [31, 32, 33, 34, 35::addr]" "length [31, 32, 33, 34, 35::addr] \<le> 2 ^ 30"
    by simp_all
  have r: "sort_rounds (node_less (<) ex_sort) 1
     ([Some 31, Some 32, Some 33, Some 34, Some 35], [0, 0, 0, 0, 0], [4, 0, 0, 0, 0], 0) =
     Some ([Some 33, Some 32, Some 31, Some 34, Some 35], [0, 2, 0, 0, 0], [1, 4, 0, 0, 0], 1)"
    by (simp add: ex_sort_round)
  have st: "stack_of [0, 2, 0, 0, 0] [1, 4, 0, 0, 0] (1 - 1) = [(0, 1)]"
    by (simp add: stack_of_def)
  have ix: "[0, 2, 0, 0, 0] ! nat 1 = (2::int)" "[1, 4, 0, 0, 0] ! nat 1 = (4::int)"
    "[Some 33, Some 32, Some 31, Some 34, Some 35] ! nat ((2 + 4) div 2) = Some (34::addr)"
    by (simp_all add: numeral_eq_Suc)
  from sort_stack_spec[OF ex_sort_list swo_int n]
  have "\<forall>k a L R tp. sort_rounds (node_less (<) ex_sort) k
           ([Some 31, Some 32, Some 33, Some 34, Some 35], [0, 0, 0, 0, 0], [4, 0, 0, 0, 0], 0)
           = Some (a, L, R, tp) \<longrightarrow>
        length a = length [31, 32, 33, 34, 35::addr] \<and> length L = length [31, 32, 33, 34, 35::addr] \<and>
        length R = length [31, 32, 33, 34, 35::addr] \<and>
        - 1 \<le> tp \<and> 2 * (tp + 1) \<le> int (length [31, 32, 33, 34, 35::addr]) \<and>
        (0 \<le> tp \<longrightarrow>
           (\<exists>a' L' R' tp' i j.
              sort_step (node_less (<) ex_sort) (a, L, R, tp) = Some (a', L', R', tp') \<and>
              partition_loop (node_less (<) ex_sort) a (a ! nat ((L ! nat tp + R ! nat tp) div 2))
                (L ! nat tp) (R ! nat tp) = Some (a', i, j) \<and>
              j < i \<and>
              stack_of L' R' tp' = stack_of L R (tp - 1) @
                (if L ! nat tp < j then [(L ! nat tp, j)] else []) @
                (if i < R ! nat tp then [(i, R ! nat tp)] else [])))"
    unfolding ex_sort_start by simp
  from this[rule_format, OF r]
  have "2 * ((1::int) + 1) \<le> int (length [31, 32, 33, 34, 35::addr])"
    and "\<exists>a' L' R' tp' i j.
      sort_step (node_less (<) ex_sort)
        ([Some 33, Some 32, Some 31, Some 34, Some 35], [0, 2, 0, 0, 0], [1, 4, 0, 0, 0], 1) =
        Some (a', L', R', tp') \<and>
      partition_loop (node_less (<) ex_sort) [Some 33, Some 32, Some 31, Some 34, Some 35]
        (Some 34) 2 4 = Some (a', i, j) \<and>
      j < i \<and>
      stack_of L' R' tp' = [(0, 1)] @ (if 2 < j then [(2, j)] else []) @
        (if i < 4 then [(i, 4)] else [])"
    unfolding ix st by simp_all
  then show ?thesis
    using ex_sort_list swo_int ex_sort_start r by blast
qed

section \<open>The size invariant\<close>





end
